theory Spec2Isabelle
  imports Main "HOL-Library.AList" "HOL-Library.Code_Target_Nat"
begin

section \<open>JavaScript strings and arrays\<close>

text \<open>
  A JavaScript string is a sequence of UTF-16 code units; \<open>length\<close>, indexing, \<open>slice\<close>
  and the regular expressions of \<open>parse-resume.ts\<close> (none of which has the \<open>u\<close> flag) all
  work on code units. A string is therefore a list of code units, each a natural number
  (the bullet glyph U+2022 is the single unit 8226). \<open>str\<close> turns an ASCII literal into
  such a list.

  A computation that would throw a \<open>TypeError\<close> (a property read on \<open>undefined\<close>) is the
  value \<open>None\<close>; an array read out of range is treated as such a failure at once, which is
  stricter than JavaScript (where the read itself yields \<open>undefined\<close>).
\<close>

type_synonym jstring = "nat list"

definition str :: "string \<Rightarrow> jstring" where
  "str s = map of_char s"

definition bullet :: nat where
  "bullet = 8226"

definition isWhiteSpace :: "nat \<Rightarrow> bool" where
  "isWhiteSpace c \<longleftrightarrow>
     c \<in> set [9, 10, 11, 12, 13, 32, 160, 5760, 8232, 8233, 8239, 8287, 12288, 65279]
     \<or> (8192 \<le> c \<and> c \<le> 8202)"

definition isLineTerminator :: "nat \<Rightarrow> bool" where
  "isLineTerminator c \<longleftrightarrow> c \<in> set [10, 13, 8232, 8233]"

definition isDigit :: "nat \<Rightarrow> bool" where
  "isDigit c \<longleftrightarrow> 48 \<le> c \<and> c \<le> 57"

definition isUpper :: "nat \<Rightarrow> bool" where
  "isUpper c \<longleftrightarrow> 65 \<le> c \<and> c \<le> 90"

definition isLower :: "nat \<Rightarrow> bool" where
  "isLower c \<longleftrightarrow> 97 \<le> c \<and> c \<le> 122"

definition isWordChar :: "nat \<Rightarrow> bool" where
  "isWordChar c \<longleftrightarrow> isDigit c \<or> isUpper c \<or> isLower c \<or> c = 95"

definition oneOf :: "string \<Rightarrow> nat \<Rightarrow> bool" where
  "oneOf s c \<longleftrightarrow> c \<in> set (str s)"

text \<open>\<open>s.trim()\<close>\<close>

definition trim :: "jstring \<Rightarrow> jstring" where
  "trim s = rev (dropWhile isWhiteSpace (rev (dropWhile isWhiteSpace s)))"

text \<open>\<open>s.split(c)\<close> for a separator of one code unit; the empty string gives \<open>['']\<close>.\<close>

fun splitChar :: "nat \<Rightarrow> jstring \<Rightarrow> jstring list" where
  "splitChar sep [] = [[]]"
| "splitChar sep (c # cs) =
     (if c = sep then [] # splitChar sep cs
      else (case splitChar sep cs of [] \<Rightarrow> [[c]] | p # ps \<Rightarrow> (c # p) # ps))"

text \<open>\<open>xs.join(sep)\<close>\<close>

fun join :: "jstring \<Rightarrow> jstring list \<Rightarrow> jstring" where
  "join sep [] = []"
| "join sep [x] = x"
| "join sep (x # y # ys) = x @ sep @ join sep (y # ys)"

text \<open>\<open>xs.slice(a, b)\<close> for indices that are not negative; both ends are clamped.\<close>

definition slice :: "nat \<Rightarrow> nat \<Rightarrow> 'a list \<Rightarrow> 'a list" where
  "slice a b xs = take (b - a) (drop a xs)"

text \<open>\<open>xs[i]\<close>, with \<open>None\<close> out of range.\<close>

definition nth_opt :: "'a list \<Rightarrow> nat \<Rightarrow> 'a option" where
  "nth_opt xs i = (if i < length xs then Some (xs ! i) else None)"

text \<open>\<open>x || ''\<close> for a string or \<open>undefined\<close>.\<close>

definition orEmpty :: "jstring option \<Rightarrow> jstring" where
  "orEmpty x = (case x of None \<Rightarrow> [] | Some s \<Rightarrow> s)"

text \<open>\<open>xs.filter(Boolean)\<close> on strings: the empty string is the only falsy one.\<close>

definition filterBoolean :: "jstring list \<Rightarrow> jstring list" where
  "filterBoolean xs = filter (\<lambda>s. s \<noteq> []) xs"

text \<open>\<open>Array.from(new Set(xs))\<close>: a set keeps the order of first insertion.\<close>

definition setAdd :: "'a list \<Rightarrow> 'a \<Rightarrow> 'a list" where
  "setAdd acc x = (if x \<in> set acc then acc else acc @ [x])"

definition uniq :: "'a list \<Rightarrow> 'a list" where
  "uniq xs = foldl setAdd [] xs"

text \<open>\<open>s.lastIndexOf(c, from)\<close> for one code unit; \<open>-1\<close> when there is none. A negative
  \<open>from\<close> is clamped to 0.\<close>

fun lastIndexFrom :: "nat \<Rightarrow> jstring \<Rightarrow> nat \<Rightarrow> int" where
  "lastIndexFrom c s 0 = (case s of [] \<Rightarrow> -1 | x # _ \<Rightarrow> if x = c then 0 else -1)"
| "lastIndexFrom c s (Suc k) =
     (if Suc k < length s \<and> s ! Suc k = c then int (Suc k) else lastIndexFrom c s k)"

definition lastIndexOf :: "nat \<Rightarrow> jstring \<Rightarrow> int" where
  "lastIndexOf c s = lastIndexFrom c s (length s)"

definition lastIndexOfFrom :: "nat \<Rightarrow> jstring \<Rightarrow> int \<Rightarrow> int" where
  "lastIndexOfFrom c s from = lastIndexFrom c s (nat from)"

section \<open>Regular expressions\<close>

text \<open>
  The fragment of ECMAScript regular expressions the parser uses, with the backtracking
  semantics of the language specification: \<open>matches r st\<close> lists, in the order in which the
  backtracking matcher would try them, the states reachable by matching \<open>r\<close> from \<open>st\<close>.
  A state is the input already passed (reversed), the input still ahead, and the captures.
  The first element of the list is the match JavaScript reports. Quantifiers are greedy,
  and an iteration of \<open>*\<close> or \<open>?\<close> that consumes nothing is rejected, as in the
  specification's RepeatMatcher.
\<close>

datatype regex =
    Eps
  | Atom "nat \<Rightarrow> bool"
  | Seq regex regex
  | Alt regex regex
  | Opt regex
  | Star regex
  | Bol
  | Eol
  | WordB
  | Grp nat regex

type_synonym mstate = "jstring \<times> jstring \<times> (nat \<times> jstring) list"

definition progress :: "mstate \<Rightarrow> mstate \<Rightarrow> bool" where
  "progress st st' \<longleftrightarrow> length (fst (snd st')) < length (fst (snd st))"

primrec iter :: "nat \<Rightarrow> (mstate \<Rightarrow> mstate list) \<Rightarrow> mstate \<Rightarrow> mstate list" where
  "iter 0 f st = [st]"
| "iter (Suc n) f st = concat (map (iter n f) (filter (progress st) (f st))) @ [st]"

definition atBoundary :: "jstring \<Rightarrow> jstring \<Rightarrow> bool" where
  "atBoundary b cs \<longleftrightarrow>
     (case b of [] \<Rightarrow> False | p # _ \<Rightarrow> isWordChar p)
       \<noteq> (case cs of [] \<Rightarrow> False | c # _ \<Rightarrow> isWordChar c)"

primrec matches :: "regex \<Rightarrow> mstate \<Rightarrow> mstate list" where
  "matches Eps st = [st]"
| "matches (Atom p) st =
     (case st of (b, cs, g) \<Rightarrow>
        (case cs of [] \<Rightarrow> [] | c # cs' \<Rightarrow> if p c then [(c # b, cs', g)] else []))"
| "matches (Seq r1 r2) st = concat (map (matches r2) (matches r1 st))"
| "matches (Alt r1 r2) st = matches r1 st @ matches r2 st"
| "matches (Opt r) st = filter (progress st) (matches r st) @ [st]"
| "matches (Star r) st = iter (length (fst (snd st))) (matches r) st"
| "matches Bol st = (if fst st = [] then [st] else [])"
| "matches Eol st = (if fst (snd st) = [] then [st] else [])"
| "matches WordB st = (if atBoundary (fst st) (fst (snd st)) then [st] else [])"
| "matches (Grp n r) st =
     map (\<lambda>(b', cs', g').
            (b', cs', AList.update n (rev (take (length b' - length (fst st)) b')) g'))
       (matches r st)"

text \<open>
  \<open>re.exec(s)\<close> for a regular expression without the \<open>g\<close> and \<open>y\<close> flags: the leftmost
  start position at which the matcher succeeds, with the state it ends in. \<open>re.test(s)\<close>,
  \<open>s.match(re)\<close> and \<open>s.search(re)\<close> are projections of it.
\<close>

fun exec_from :: "regex \<Rightarrow> jstring \<Rightarrow> jstring \<Rightarrow> (nat \<times> mstate) option" where
  "exec_from r b [] =
     (case matches r (b, [], []) of [] \<Rightarrow> None | st # _ \<Rightarrow> Some (length b, st))"
| "exec_from r b (c # cs) =
     (case matches r (b, c # cs, []) of
        [] \<Rightarrow> exec_from r (c # b) cs
      | st # _ \<Rightarrow> Some (length b, st))"

definition exec :: "regex \<Rightarrow> jstring \<Rightarrow> (nat \<times> mstate) option" where
  "exec r s = exec_from r [] s"

definition test :: "regex \<Rightarrow> jstring \<Rightarrow> bool" where
  "test r s \<longleftrightarrow> exec r s \<noteq> None"

text \<open>\<open>m.index\<close>, \<open>m[0]\<close> and \<open>m[n]\<close> of a match.\<close>

definition matchIndex :: "nat \<times> mstate \<Rightarrow> nat" where
  "matchIndex m = fst m"

definition matchText :: "nat \<times> mstate \<Rightarrow> jstring" where
  "matchText m = (case m of (i, b, cs, g) \<Rightarrow> rev (take (length b - i) b))"

definition matchGroup :: "nat \<times> mstate \<Rightarrow> nat \<Rightarrow> jstring option" where
  "matchGroup m n = (case m of (i, b, cs, g) \<Rightarrow> map_of g n)"

text \<open>
  With the \<open>i\<close> flag and no \<open>u\<close> flag, two code units match when their canonical forms
  (\<open>toUpperCase\<close>, unless that leaves ASCII) are equal. Every pattern character of the
  parser is ASCII, and no code unit outside ASCII is canonicalised into ASCII, so only the
  ASCII part of the canonical form matters.
\<close>

definition canonicalize :: "nat \<Rightarrow> nat" where
  "canonicalize c = (if isLower c then c - 32 else c)"

definition chr :: "char \<Rightarrow> regex" where
  "chr c = Atom (\<lambda>x. x = of_char c)"

definition chri :: "char \<Rightarrow> regex" where
  "chri c = Atom (\<lambda>x. canonicalize x = canonicalize (of_char c))"

definition seqs :: "regex list \<Rightarrow> regex" where
  "seqs rs = foldr Seq rs Eps"

fun alts :: "regex list \<Rightarrow> regex" where
  "alts [] = Eps"
| "alts [r] = r"
| "alts (r # rs) = Alt r (alts rs)"

definition lit :: "string \<Rightarrow> regex" where
  "lit s = seqs (map chr s)"

definition liti :: "string \<Rightarrow> regex" where
  "liti s = seqs (map chri s)"

definition oneOrMore :: "regex \<Rightarrow> regex" where
  "oneOrMore r = Seq r (Star r)"

text \<open>\<open>r{n}\<close> and \<open>r{n,}\<close>\<close>

primrec exactly :: "nat \<Rightarrow> regex \<Rightarrow> regex" where
  "exactly 0 r = Eps"
| "exactly (Suc n) r = Seq r (exactly n r)"

definition atLeastN :: "nat \<Rightarrow> regex \<Rightarrow> regex" where
  "atLeastN n r = Seq (exactly n r) (Star r)"

definition spaceC :: regex where
  "spaceC = Atom isWhiteSpace"

definition nonSpaceC :: regex where
  "nonSpaceC = Atom (\<lambda>c. \<not> isWhiteSpace c)"

definition digitC :: regex where
  "digitC = Atom isDigit"

definition letterC :: regex where
  "letterC = Atom (\<lambda>c. isUpper c \<or> isLower c)"

definition dotC :: regex where
  "dotC = Atom (\<lambda>c. \<not> isLineTerminator c)"

section \<open>parseSections\<close>

datatype skey = Header | Summary | Education | Experience | Skills | Projects | Certifications

definition headerLabels :: "(skey \<times> regex) list" where
  "headerLabels =
    [(Summary, Alt (liti ''Summary'') (liti ''Objective'')),
     (Education, liti ''Education''),
     (Experience, Seq (Opt (Seq (liti ''Professional'') (oneOrMore spaceC))) (liti ''Experience'')),
     (Skills, alts [Seq (liti ''Technical'') (Seq (oneOrMore spaceC) (liti ''Skills'')),
                    liti ''Skills'', liti ''SKILLS'']),
     (Projects, liti ''Projects''),
     (Certifications, liti ''Certifications'')]"

text \<open>\<open>new RegExp(`^${h.label.source}$`, 'i')\<close>\<close>

definition anchored :: "regex \<Rightarrow> regex" where
  "anchored r = Seq Bol (Seq r Eol)"

text \<open>The inner loop over \<open>headerLabels\<close> for line \<open>i\<close>; the state is \<open>headerLines\<close> and
  \<open>seen\<close>.\<close>

fun scanLabels ::
  "(skey \<times> regex) list \<Rightarrow> nat \<Rightarrow> jstring \<Rightarrow> (skey \<times> nat) list \<times> skey list
     \<Rightarrow> (skey \<times> nat) list \<times> skey list" where
  "scanLabels [] i line st = st"
| "scanLabels ((k, label) # hs) i line (headerLines, seen) =
     (if k \<in> set seen then scanLabels hs i line (headerLines, seen)
      else if test (anchored label) line
        then scanLabels hs i line (headerLines @ [(k, i)], seen @ [k])
        else scanLabels hs i line (headerLines, seen))"

text \<open>The outer loop \<open>for (let i = 0; i < lines.length; i++)\<close>; \<open>i\<close> is the index of the
  first of the lines still to visit.\<close>

fun scanLines ::
  "nat \<Rightarrow> jstring list \<Rightarrow> (skey \<times> nat) list \<times> skey list
     \<Rightarrow> (skey \<times> nat) list \<times> skey list" where
  "scanLines i [] st = st"
| "scanLines i (line # ls) st = scanLines (Suc i) ls (scanLabels headerLabels i line st)"

text \<open>\<open>headerLines\<close> after the stable sort by \<open>lineIndex\<close>.\<close>

definition headerLinesOf :: "jstring list \<Rightarrow> (skey \<times> nat) list" where
  "headerLinesOf lines = sort_key snd (fst (scanLines 0 lines ([], [])))"

definition firstHeaderLine :: "(skey \<times> nat) list \<Rightarrow> nat \<Rightarrow> nat option" where
  "firstHeaderLine headerLines n =
     (if length headerLines > 0 then map_option snd (nth_opt headerLines 0) else Some n)"

text \<open>The key, \<open>start\<close> and \<open>end\<close> of the \<open>i\<close>-th iteration of the loop that fills
  \<open>sections\<close>.\<close>

definition regionOf :: "(skey \<times> nat) list \<Rightarrow> nat \<Rightarrow> nat \<Rightarrow> (skey \<times> nat \<times> nat) option" where
  "regionOf headerLines n i =
     (case nth_opt headerLines i of
        None \<Rightarrow> None
      | Some (key, lineIndex) \<Rightarrow>
          (case (if i + 1 < length headerLines
                 then map_option snd (nth_opt headerLines (i + 1)) else Some n) of
             None \<Rightarrow> None
           | Some end \<Rightarrow> Some (key, lineIndex + 1, end)))"

definition regionText :: "jstring list \<Rightarrow> nat \<Rightarrow> nat \<Rightarrow> jstring" where
  "regionText lines start end = trim (join [10] (slice start end lines))"

fun sectionLoop ::
  "jstring list \<Rightarrow> (skey \<times> nat) list \<Rightarrow> nat list \<Rightarrow> (skey \<times> jstring) list
     \<Rightarrow> (skey \<times> jstring) list option" where
  "sectionLoop lines headerLines [] sections = Some sections"
| "sectionLoop lines headerLines (i # is) sections =
     (case regionOf headerLines (length lines) i of
        None \<Rightarrow> None
      | Some (key, start, end) \<Rightarrow>
          sectionLoop lines headerLines is
            (AList.update key (regionText lines start end) sections))"

record parsed =
  ps_lines :: "jstring list"
  ps_content :: jstring
  ps_sections :: "(skey \<times> jstring) list"

definition normLines :: "jstring \<Rightarrow> jstring list" where
  "normLines text = map trim (splitChar 10 text)"

definition parseSections :: "jstring \<Rightarrow> parsed option" where
  "parseSections text =
     (let lines = normLines text;
          content = join [10] lines;
          headerLines = headerLinesOf lines
      in case firstHeaderLine headerLines (length lines) of
           None \<Rightarrow> None
         | Some first \<Rightarrow>
             (case sectionLoop lines headerLines [0..<length headerLines]
                     [(Header, regionText lines 0 first)] of
                None \<Rightarrow> None
              | Some sections \<Rightarrow>
                  Some \<lparr>ps_lines = filter (\<lambda>l. length l > 0) lines,
                        ps_content = content,
                        ps_sections = sections\<rparr>))"

section \<open>extractHeader\<close>

record contact =
  email :: jstring
  phone :: jstring
  website :: jstring
  linkedin :: jstring
  github :: jstring
  c_location :: jstring

record header =
  h_name :: "jstring option"
  h_contact :: "contact option"

definition emailRe :: regex where
  "emailRe = chr CHR ''@''"

definition phoneRe :: regex where
  "phoneRe = seqs [Opt (chr CHR ''+''), digitC,
                   atLeastN 7 (Atom (\<lambda>c. isDigit c \<or> isWhiteSpace c \<or> oneOf ''().-'' c)), digitC]"

definition dotRe :: regex where
  "dotRe = chr CHR ''.''"

definition allowRe :: regex where
  "allowRe = alts [liti ''malik'', liti ''sha256'', liti ''http'']"

definition linkedinRe :: regex where
  "linkedinRe = liti ''linkedin.com''"

definition githubRe :: regex where
  "githubRe = liti ''github.com''"

definition isEmail :: "jstring \<Rightarrow> bool" where
  "isEmail p \<longleftrightarrow> test emailRe p"

definition isPhone :: "jstring \<Rightarrow> bool" where
  "isPhone p \<longleftrightarrow> test phoneRe p"

definition isWebsite :: "jstring \<Rightarrow> bool" where
  "isWebsite p \<longleftrightarrow> test dotRe p \<and> \<not> test emailRe p \<and> test allowRe p"

definition isLinkedin :: "jstring \<Rightarrow> bool" where
  "isLinkedin p \<longleftrightarrow> test linkedinRe p"

definition isGithub :: "jstring \<Rightarrow> bool" where
  "isGithub p \<longleftrightarrow> test githubRe p"

text \<open>\<open>secondLine.split('|').map(s => s.trim()).filter(Boolean)\<close>\<close>

definition contactParts :: "jstring \<Rightarrow> jstring list" where
  "contactParts secondLine = filterBoolean (map trim (splitChar 124 secondLine))"

definition contactOf :: "jstring list \<Rightarrow> contact" where
  "contactOf parts =
     \<lparr>email = orEmpty (find isEmail parts),
      phone = orEmpty (find isPhone parts),
      website = orEmpty (find isWebsite parts),
      linkedin = orEmpty (find isLinkedin parts),
      github = orEmpty (find isGithub parts),
      c_location = []\<rparr>"

definition nonEmptyLines :: "jstring list \<Rightarrow> jstring list" where
  "nonEmptyLines lines = filter (\<lambda>l. length (trim l) > 0) lines"

definition firstLine :: "jstring list \<Rightarrow> jstring" where
  "firstLine lines = orEmpty (nth_opt (nonEmptyLines lines) 0)"

definition secondLine :: "jstring list \<Rightarrow> jstring" where
  "secondLine lines = orEmpty (nth_opt (nonEmptyLines lines) 1)"

definition extractHeader :: "jstring list \<Rightarrow> header" where
  "extractHeader lines =
     \<lparr>h_name = (if firstLine lines \<noteq> [] then Some (trim (firstLine lines)) else None),
      h_contact = Some (contactOf (contactParts (secondLine lines)))\<rparr>"

section \<open>Splitting and replacing by a regular expression\<close>

definition cu :: "nat \<Rightarrow> regex" where
  "cu n = Atom (\<lambda>x. x = n)"

text \<open>
  The loop of \<open>s.split(re)\<close> on a string that is not empty: \<open>b\<close> is the input before the
  position \<open>q\<close> (reversed), \<open>piece\<close> the input between \<open>p\<close> and \<open>q\<close> (reversed), and the
  last argument the input from \<open>q\<close> on. A match at \<open>q\<close> that ends at \<open>p\<close> is skipped.
\<close>

fun splitLoop :: "regex \<Rightarrow> jstring \<Rightarrow> jstring \<Rightarrow> jstring \<Rightarrow> jstring list" where
  "splitLoop r b piece [] = [rev piece]"
| "splitLoop r b piece (c # cs) =
     (case matches r (b, c # cs, []) of
        [] \<Rightarrow> splitLoop r (c # b) (c # piece) cs
      | (b', cs', g) # _ \<Rightarrow>
          if length cs' < length (c # cs) then rev piece # splitLoop r b' [] cs'
          else if piece = [] then splitLoop r (c # b) [c] cs
          else rev piece # splitLoop r (c # b) [c] cs)"

definition splitRe :: "regex \<Rightarrow> jstring \<Rightarrow> jstring list" where
  "splitRe r s =
     (if s = [] then (if matches r ([], [], []) = [] then [[]] else [])
      else splitLoop r [] [] s)"

text \<open>\<open>s.replace(re, rep)\<close> without the \<open>g\<close> flag.\<close>

definition replaceFirst :: "regex \<Rightarrow> jstring \<Rightarrow> jstring \<Rightarrow> jstring" where
  "replaceFirst r rep s =
     (case exec r s of None \<Rightarrow> s | Some (i, b, cs, g) \<Rightarrow> take i s @ rep @ cs)"

text \<open>\<open>s.replace(re, rep)\<close> with the \<open>g\<close> flag: after an empty match the search moves on
  by one code unit.\<close>

fun replaceLoop :: "regex \<Rightarrow> jstring \<Rightarrow> jstring \<Rightarrow> jstring \<Rightarrow> jstring" where
  "replaceLoop r rep b [] = (case matches r (b, [], []) of [] \<Rightarrow> [] | _ # _ \<Rightarrow> rep)"
| "replaceLoop r rep b (c # cs) =
     (case matches r (b, c # cs, []) of
        [] \<Rightarrow> c # replaceLoop r rep (c # b) cs
      | (b', cs', g) # _ \<Rightarrow>
          if length cs' < length (c # cs) then rep @ replaceLoop r rep b' cs'
          else rep @ c # replaceLoop r rep (c # b) cs)"

definition replaceAll :: "regex \<Rightarrow> jstring \<Rightarrow> jstring \<Rightarrow> jstring" where
  "replaceAll r rep s = replaceLoop r rep [] s"

text \<open>\<open>section.split('\n').map(l => l.trim()).filter(Boolean)\<close>\<close>

definition contentLines :: "jstring \<Rightarrow> jstring list" where
  "contentLines section = filterBoolean (map trim (splitChar 10 section))"

section \<open>extractList\<close>

definition listSepRe :: regex where
  "listSepRe = alts [cu 10, cu bullet, cu 8226, chr CHR ''-'']"

definition skillsHeadRe :: regex where
  "skillsHeadRe =
     seqs [Bol, WordB, alts [liti ''Skills'', liti ''Technical Skills'', liti ''SKILLS''], WordB]"

definition extractList :: "jstring \<Rightarrow> jstring list" where
  "extractList section =
     filter (\<lambda>s. length s > 0 \<and> \<not> test skillsHeadRe s) (map trim (splitRe listSepRe section))"


section \<open>extractExperience\<close>

record experience_entry =
  x_company :: jstring
  x_role :: jstring
  x_duration :: jstring
  x_location :: jstring
  x_bullets :: "jstring list"

definition monthRe :: regex where
  "monthRe = Grp 1 (alts
     [Seq (liti ''Jan'') (Opt (liti ''uary'')),
      Seq (liti ''Feb'') (Opt (liti ''ruary'')),
      Seq (liti ''Mar'') (Opt (liti ''ch'')),
      Seq (liti ''Apr'') (Opt (liti ''il'')),
      liti ''May'',
      Seq (liti ''Jun'') (Opt (liti ''e'')),
      Seq (liti ''Jul'') (Opt (liti ''y'')),
      Seq (liti ''Aug'') (Opt (liti ''ust'')),
      Seq (liti ''Sep'') (Alt (liti ''t'') (liti ''tember'')),
      Seq (liti ''Oct'') (Opt (liti ''ober'')),
      Seq (liti ''Nov'') (Opt (liti ''ember'')),
      Seq (liti ''Dec'') (Opt (liti ''ember''))])"

definition yearRe :: regex where
  "yearRe = Grp 1 (Alt (seqs [WordB, exactly 4 digitC, WordB]) (lit ''Present''))"

definition bulletPrefixRe :: regex where
  "bulletPrefixRe = seqs [Bol, cu bullet, Star spaceC]"

text \<open>\<open>line.startsWith('\<bullet> ')\<close>\<close>

definition startsWithBullet :: "jstring \<Rightarrow> bool" where
  "startsWithBullet line \<longleftrightarrow> take 2 line = [bullet, 32]"

text \<open>The inner \<open>while\<close> loop that collects the bullets; it returns the cursor and the
  bullets.\<close>

function bulletLoop :: "jstring list \<Rightarrow> nat \<Rightarrow> jstring list \<Rightarrow> (nat \<times> jstring list) option" where
  "bulletLoop lines i bullets =
     (if i < length lines then
        (case nth_opt lines i of
           None \<Rightarrow> None
         | Some line \<Rightarrow>
             if test yearRe line then Some (i, bullets)
             else if line = [bullet] \<and> i + 1 < length lines then
               (case nth_opt lines (i + 1) of
                  None \<Rightarrow> None
                | Some bulletText \<Rightarrow> bulletLoop lines (i + 2) (bullets @ [bulletText]))
             else if startsWithBullet line then
               bulletLoop lines (i + 1) (bullets @ [replaceFirst bulletPrefixRe [] line])
             else if length bullets > 0 then
               (case nth_opt bullets (length bullets - 1) of
                  None \<Rightarrow> None
                | Some prev \<Rightarrow>
                    bulletLoop lines (i + 1)
                      (bullets[length bullets - 1 := trim (prev @ [32] @ line)]))
             else bulletLoop lines (i + 1) (bullets @ [line]))
      else Some (i, bullets))"
  by pat_completeness auto
termination
  by (relation "measure (\<lambda>(lines, i, bullets). length lines - i)") auto

declare bulletLoop.simps [simp del]

lemma bulletLoop_cursor:
  "bulletLoop lines i bullets = Some (j, bs) \<Longrightarrow> i \<le> j"
proof (induction lines i bullets rule: bulletLoop.induct)
  case (1 lines i bullets)
  from "1.prems" "1.IH" show ?case
    by (subst (asm) bulletLoop.simps)
      (fastforce simp: nth_opt_def split: if_splits option.splits)
qed

text \<open>The role and location of the line after the company line, split at the last comma.\<close>

definition roleLocation :: "jstring \<Rightarrow> jstring \<times> jstring" where
  "roleLocation rl =
     (let commaIdx = lastIndexOf 44 rl
      in if commaIdx \<noteq> -1
         then (trim (slice 0 (nat commaIdx) rl), trim (drop (nat (commaIdx + 1)) rl))
         else (trim rl, []))"

text \<open>The company and duration of a company line, split at the first month name.\<close>

definition companyDuration :: "jstring \<Rightarrow> jstring \<times> jstring" where
  "companyDuration line =
     (case exec monthRe line of
        None \<Rightarrow> (line, [])
      | Some m \<Rightarrow> (trim (slice 0 (matchIndex m) line), trim (drop (matchIndex m) line)))"

function expLoop ::
  "jstring list \<Rightarrow> nat \<Rightarrow> experience_entry list \<Rightarrow> experience_entry list option" where
  "expLoop lines i items =
     (if i < length lines then
        (case nth_opt lines i of
           None \<Rightarrow> None
         | Some line \<Rightarrow>
             if test yearRe line \<and> test letterC line then
               (case (if i + 1 < length lines
                      then map_option (\<lambda>rl. (roleLocation rl, i + 2)) (nth_opt lines (i + 1))
                      else Some (([], []), i + 1)) of
                  None \<Rightarrow> None
                | Some ((role, location), i') \<Rightarrow>
                    (case bulletLoop lines i' [] of
                       None \<Rightarrow> None
                     | Some (i'', bullets) \<Rightarrow>
                         expLoop lines i''
                           (items @ [\<lparr>x_company = fst (companyDuration line), x_role = role,
                                      x_duration = snd (companyDuration line),
                                      x_location = location, x_bullets = bullets\<rparr>])))
             else expLoop lines (i + 1) items)
      else Some items)"
  by pat_completeness auto
termination
  by (relation "measure (\<lambda>(lines, i, items). length lines - i)")
    (auto split: if_splits dest!: bulletLoop_cursor)

declare expLoop.simps [simp del]

definition extractExperience :: "jstring \<Rightarrow> experience_entry list option" where
  "extractExperience section = expLoop (contentLines section) 0 []"



section \<open>extractProjects\<close>

record project =
  p_name :: jstring
  p_description :: jstring
  p_tech :: "jstring list"
  p_link :: "jstring option"
  p_bullets :: "jstring list"

definition newProject :: "jstring \<Rightarrow> project" where
  "newProject name =
     \<lparr>p_name = name, p_description = [], p_tech = [], p_link = None, p_bullets = []\<rparr>"

text \<open>\<open>ensureCurrent()\<close>, returning the entry that is current afterwards.\<close>

definition ensureCurrent :: "project option \<Rightarrow> project" where
  "ensureCurrent current = (case current of None \<Rightarrow> newProject (str ''Project'') | Some p \<Rightarrow> p)"

definition techSepRe :: regex where
  "techSepRe = Atom (oneOf '',/|'')"

definition twoSpacesRe :: regex where
  "twoSpacesRe = atLeastN 2 spaceC"

definition parenRe :: regex where
  "parenRe = Atom (oneOf ''()'')"

definition techParts :: "jstring \<Rightarrow> jstring list" where
  "techParts raw =
     filterBoolean
       (map (\<lambda>s. trim (replaceAll parenRe [] s))
          (concat (map (splitRe twoSpacesRe) (map trim (splitRe techSepRe raw)))))"

definition addTech :: "project option \<Rightarrow> jstring \<Rightarrow> project" where
  "addTech current raw =
     (let p = ensureCurrent current in p\<lparr>p_tech := uniq (p_tech p @ techParts raw)\<rparr>)"

definition techWord :: regex where
  "techWord = seqs [WordB,
     Grp 1 (alts
       [liti ''React'', liti ''Next'', liti ''Node'',
        seqs [liti ''Type'', Star spaceC, liti ''Script''],
        liti ''TypeScript'', liti ''Tailwind'', liti ''Python'', liti ''AWS'', liti ''GCP'',
        liti ''Docker'', liti ''Kubernetes'', liti ''Postgres'', liti ''MongoDB'',
        Seq (liti ''Java'') WordB,
        seqs [liti ''Spring'', Star spaceC, liti ''Boot''],
        liti ''JavaScript'', liti ''C++'', liti ''C#'', liti ''SFML'', liti ''Terraform'',
        liti ''Prometheus'', liti ''Grafana'', liti ''Jenkins'',
        Seq (liti ''CI'') WordB, Seq (liti ''CD'') WordB, liti ''Microservices'']),
     WordB]"

definition othersRe :: regex where
  "othersRe = seqs [Bol, liti ''OTHERS'', Eol]"

definition urlRe :: regex where
  "urlRe = seqs [liti ''http'', Opt (chri CHR ''s''), liti ''://'']"

definition urlFullRe :: regex where
  "urlFullRe = seqs [liti ''http'', Opt (chri CHR ''s''), liti ''://'', oneOrMore nonSpaceC]"

definition sentenceEndRe :: regex where
  "sentenceEndRe = Seq (Atom (oneOf ''.!?'')) Eol"

definition looksLikeTech :: "jstring \<Rightarrow> bool" where
  "looksLikeTech line \<longleftrightarrow>
     test techWord line \<and> \<not> test sentenceEndRe line
     \<and> length (splitRe (oneOrMore spaceC) line) \<le> 8"

text \<open>\<open>(line.match(/https?:\/\/\S+/i)?.[0] || line).trim()\<close>\<close>

definition linkOf :: "jstring \<Rightarrow> jstring" where
  "linkOf line =
     trim (case exec urlFullRe line of
             None \<Rightarrow> line
           | Some m \<Rightarrow> if matchText m = [] then line else matchText m)"

text \<open>\<open>if (current) items.push(current)\<close>\<close>

definition pushCurrent :: "project option \<Rightarrow> project list \<Rightarrow> project list" where
  "pushCurrent current items = (case current of None \<Rightarrow> items | Some p \<Rightarrow> items @ [p])"

text \<open>
  The \<open>for\<close> loop over the lines, with the state \<open>current\<close>, \<open>items\<close> and
  \<open>bulletsStarted\<close>; it returns \<open>current\<close> and \<open>items\<close> as they are when the loop is
  left (by its condition or by \<open>break\<close>).
\<close>

function projLoop ::
  "jstring list \<Rightarrow> nat \<Rightarrow> project option \<Rightarrow> project list \<Rightarrow> bool
     \<Rightarrow> (project option \<times> project list) option" where
  "projLoop lines i current items bulletsStarted =
     (if i < length lines then
        (case nth_opt lines i of
           None \<Rightarrow> None
         | Some line \<Rightarrow>
             if test othersRe line then Some (current, pushCurrent current items)
             else if 124 \<in> set line then
               (case take 2 (splitChar 124 line) of
                  [] \<Rightarrow> None
                | left # rest \<Rightarrow>
                    projLoop lines (i + 1)
                      (case rest of
                         [] \<Rightarrow> Some (newProject (trim left))
                       | right # _ \<Rightarrow>
                           if right \<noteq> [] then Some (addTech (Some (newProject (trim left))) right)
                           else Some (newProject (trim left)))
                      (pushCurrent current items) False)
             else if test urlRe line then
               projLoop lines (i + 1)
                 (Some ((ensureCurrent current)\<lparr>p_link := Some (linkOf line)\<rparr>))
                 items bulletsStarted
             else if line = [bullet] \<and> i + 1 < length lines then
               (case nth_opt lines (i + 1) of
                  None \<Rightarrow> None
                | Some next \<Rightarrow>
                    projLoop lines (i + 2)
                      (Some ((ensureCurrent current)
                         \<lparr>p_bullets := p_bullets (ensureCurrent current) @ [next]\<rparr>))
                      items True)
             else if startsWithBullet line then
               projLoop lines (i + 1)
                 (Some ((ensureCurrent current)
                    \<lparr>p_bullets := p_bullets (ensureCurrent current)
                                   @ [replaceFirst bulletPrefixRe [] line]\<rparr>))
                 items True
             else if bulletsStarted \<and> current \<noteq> None
                     \<and> length (p_bullets (ensureCurrent current)) > 0 then
               (let p = ensureCurrent current; lastIdx = length (p_bullets p) - 1
                in case nth_opt (p_bullets p) lastIdx of
                     None \<Rightarrow> None
                   | Some prev \<Rightarrow>
                       projLoop lines (i + 1)
                         (Some (p\<lparr>p_bullets := (p_bullets p)[lastIdx := trim (prev @ [32] @ line)]\<rparr>))
                         items bulletsStarted)
             else if looksLikeTech line then
               projLoop lines (i + 1) (Some (addTech current line)) items bulletsStarted
             else
               projLoop lines (i + 1)
                 (Some ((ensureCurrent current)
                    \<lparr>p_description :=
                       join [32] (filterBoolean [p_description (ensureCurrent current), line])\<rparr>))
                 items bulletsStarted)
      else Some (current, items))"
  by pat_completeness auto
termination
  by (relation "measure (\<lambda>(lines, i, current, items, bs). length lines - i)") auto

declare projLoop.simps [simp del]

text \<open>
  \<open>toLowerCase\<close> is only used before \<open>replace(/[^a-z0-9]+/g, ' ')\<close>, which turns every
  code unit outside \<open>a-z0-9\<close> into a separator. The only code units outside ASCII whose
  lower case contains an ASCII letter are U+0130 (to \<open>i\<close> and U+0307) and the Kelvin sign
  U+212A (to \<open>k\<close>); every other code unit outside \<open>A-Z\<close> is mapped to code units that are
  separators as it is itself, and is left as it is here.
\<close>

definition toLowerCase :: "jstring \<Rightarrow> jstring" where
  "toLowerCase s =
     concat (map (\<lambda>c. if isUpper c then [c + 32]
                      else if c = 304 then [105, 775]
                      else if c = 8490 then [107]
                      else [c]) s)"

definition nonAlnumRe :: regex where
  "nonAlnumRe = oneOrMore (Atom (\<lambda>c. \<not> (isLower c \<or> isDigit c)))"

definition normKey :: "jstring \<Rightarrow> jstring" where
  "normKey name = trim (replaceAll nonAlnumRe [32] (toLowerCase name))"

definition richness :: "project \<Rightarrow> nat" where
  "richness p =
     length (join [32] (p_bullets p)) + length (join [32] (p_tech p)) + length (p_description p)"

text \<open>One iteration of the loop over \<open>items\<close>; \<open>byName\<close> is a \<open>Map\<close>, which keeps its keys
  in the order of first insertion.\<close>

definition dedupStep :: "(jstring \<times> project) list \<Rightarrow> project \<Rightarrow> (jstring \<times> project) list" where
  "dedupStep byName p =
     (let key = normKey (p_name p)
      in case map_of byName key of
           None \<Rightarrow> AList.update key p byName
         | Some existing \<Rightarrow>
             if richness p > richness existing then AList.update key p byName else byName)"

definition dedupe :: "project list \<Rightarrow> project list" where
  "dedupe items = map snd (foldl dedupStep [] items)"

definition extractProjects :: "jstring \<Rightarrow> project list option" where
  "extractProjects section =
     (case projLoop (contentLines section) 0 None [] False of
        None \<Rightarrow> None
      | Some (current, items) \<Rightarrow> Some (dedupe (pushCurrent current items)))"



section \<open>extractEducation\<close>

record education_entry =
  ed_school :: jstring
  ed_degree :: jstring
  ed_duration :: jstring
  ed_location :: jstring

definition dateRe :: regex where
  "dateRe = seqs [WordB,
     alts [liti ''Jan.'', liti ''Feb.'', liti ''Mar.'', liti ''Apr.'', liti ''May'', liti ''Jun.'',
           liti ''Jul.'', liti ''Aug.'', liti ''Sep.'', liti ''Oct.'', liti ''Nov.'', liti ''Dec.''],
     Star spaceC, exactly 4 digitC, WordB]"

definition schoolLocation :: "jstring \<Rightarrow> jstring \<times> jstring" where
  "schoolLocation schoolAndLoc =
     (let lastComma = lastIndexOf 44 schoolAndLoc
      in if lastComma \<noteq> -1
         then (let location =
                     trim (drop (nat (lastIndexOfFrom 32 schoolAndLoc (lastComma - 1) + 1))
                             schoolAndLoc)
               in (trim (slice 0 (length schoolAndLoc - length location) schoolAndLoc), location))
         else (schoolAndLoc, []))"

definition degreeDuration :: "jstring \<Rightarrow> jstring \<times> jstring" where
  "degreeDuration degreeAndDuration =
     (case exec dateRe degreeAndDuration of
        None \<Rightarrow> (degreeAndDuration, [])
      | Some m \<Rightarrow>
          (trim (slice 0 (matchIndex m) degreeAndDuration),
           trim (drop (matchIndex m) degreeAndDuration)))"

definition extractEducation :: "jstring \<Rightarrow> education_entry list option" where
  "extractEducation section =
     (let lines = contentLines section
      in if length lines \<ge> 2 then
           (case nth_opt lines 0 of
              None \<Rightarrow> None
            | Some schoolAndLoc \<Rightarrow>
                (case nth_opt lines 1 of
                   None \<Rightarrow> None
                 | Some degreeAndDuration \<Rightarrow>
                     Some [\<lparr>ed_school = fst (schoolLocation schoolAndLoc),
                            ed_degree = fst (degreeDuration degreeAndDuration),
                            ed_duration = snd (degreeDuration degreeAndDuration),
                            ed_location = snd (schoolLocation schoolAndLoc)\<rparr>]))
         else Some [])"

section \<open>extractSkills\<close>

definition skillsLineRe :: regex where
  "skillsLineRe = seqs [Bol, Grp 1 (oneOrMore (Atom (\<lambda>c. isUpper c \<or> isLower c \<or> c = 32))),
                        chr CHR '':'', Star spaceC, Grp 2 (Star dotC), Eol]"

definition skillParts :: "jstring \<Rightarrow> jstring list" where
  "skillParts raw =
     filterBoolean
       (map trim (concat (map (splitRe twoSpacesRe) (map trim (splitRe (Atom (oneOf '',/'')) raw)))))"

text \<open>The body of the loop over the lines; \<open>skills\<close> is an object, which keeps its keys
  (none of them an array index here) in the order of first assignment.\<close>

definition skillsStep ::
  "(jstring \<times> jstring list) list \<Rightarrow> jstring \<Rightarrow> (jstring \<times> jstring list) list option" where
  "skillsStep skills line =
     (case exec skillsLineRe line of
        None \<Rightarrow> Some skills
      | Some m \<Rightarrow>
          (case matchGroup m 1 of
             None \<Rightarrow> None
           | Some category \<Rightarrow>
               (case matchGroup m 2 of
                  None \<Rightarrow> None
                | Some raw \<Rightarrow>
                    Some (AList.update (trim category) (uniq (skillParts (trim raw))) skills))))"

fun skillsLoop ::
  "jstring list \<Rightarrow> (jstring \<times> jstring list) list \<Rightarrow> (jstring \<times> jstring list) list option" where
  "skillsLoop [] skills = Some skills"
| "skillsLoop (line # lines) skills =
     (case skillsStep skills line of None \<Rightarrow> None | Some skills' \<Rightarrow> skillsLoop lines skills')"

definition extractSkills :: "jstring \<Rightarrow> (jstring \<times> jstring list) list option" where
  "extractSkills section = skillsLoop (contentLines section) []"

section \<open>main\<close>

record resume =
  r_name :: "jstring option"
  r_headline :: "jstring option"
  r_contact :: "contact option"
  r_summary :: "jstring option"
  r_skills :: "(jstring \<times> jstring list) list option"
  r_experience :: "experience_entry list option"
  r_projects :: "project list option"
  r_education :: "education_entry list option"
  r_certifications :: "jstring list option"

definition summaryHeadRe :: regex where
  "summaryHeadRe = seqs [Bol, WordB, Alt (liti ''Summary'') (liti ''Objective''), WordB]"

text \<open>\<open>sections.summary?.replace(/^\b(?:Summary|Objective)\b/i, '').trim() || undefined\<close>\<close>

definition summaryOf :: "(skey \<times> jstring) list \<Rightarrow> jstring option" where
  "summaryOf sections =
     (case map_of sections Summary of
        None \<Rightarrow> None
      | Some s \<Rightarrow>
          (let t = trim (replaceFirst summaryHeadRe [] s) in if t = [] then None else Some t))"

text \<open>\<open>sections.k || ''\<close>\<close>

definition sectionOr :: "(skey \<times> jstring) list \<Rightarrow> skey \<Rightarrow> jstring" where
  "sectionOr sections k = orEmpty (map_of sections k)"

text \<open>The record that \<open>main\<close> builds from \<open>parsed.text\<close>; reading the document and writing
  the files are left out.\<close>

definition main :: "jstring \<Rightarrow> resume option" where
  "main text =
     (case parseSections text of
        None \<Rightarrow> None
      | Some ps \<Rightarrow>
          (case extractSkills (sectionOr (ps_sections ps) Skills) of
             None \<Rightarrow> None
           | Some skills \<Rightarrow>
               (case extractExperience (sectionOr (ps_sections ps) Experience) of
                  None \<Rightarrow> None
                | Some experience \<Rightarrow>
                    (case extractProjects (sectionOr (ps_sections ps) Projects) of
                       None \<Rightarrow> None
                     | Some projects \<Rightarrow>
                         (case extractEducation (sectionOr (ps_sections ps) Education) of
                            None \<Rightarrow> None
                          | Some education \<Rightarrow>
                              Some \<lparr>r_name = h_name (extractHeader (ps_lines ps)),
                                    r_headline = None,
                                    r_contact = h_contact (extractHeader (ps_lines ps)),
                                    r_summary = summaryOf (ps_sections ps),
                                    r_skills = Some skills,
                                    r_experience = Some experience,
                                    r_projects = Some projects,
                                    r_education = Some education,
                                    r_certifications =
                                      Some (extractList
                                              (sectionOr (ps_sections ps) Certifications))\<rparr>)))))"

section \<open>Notions used in the statements\<close>

text \<open>The normalised name of a project entry, the key of the deduplication.\<close>

abbreviation keyOf :: "project \<Rightarrow> jstring" where
  "keyOf p \<equiv> normKey (p_name p)"

text \<open>The entry kept for a key: none with that key is richer, and none before it with
  that key is as rich.\<close>

definition kept :: "project list \<Rightarrow> jstring \<Rightarrow> project \<Rightarrow> bool" where
  "kept items k p \<longleftrightarrow>
     keyOf p = k \<and> (\<forall>q \<in> set items. keyOf q = k \<longrightarrow> richness q \<le> richness p)
     \<and> find (\<lambda>q. keyOf q = k \<and> richness p \<le> richness q) items = Some p"

text \<open>The numbers of the groups that a state has captured.\<close>

definition capKeys :: "mstate \<Rightarrow> nat set" where
  "capKeys st = fst ` set (snd (snd st))"

text \<open>\<open>captures n r\<close>: every match of \<open>r\<close> sets the group \<open>n\<close>.\<close>

definition captures :: "nat \<Rightarrow> regex \<Rightarrow> bool" where
  "captures n r \<longleftrightarrow> (\<forall>st st'. st' \<in> set (matches r st) \<longrightarrow> n \<in> capKeys st')"

text \<open>\<open>containsCI w s\<close>: the ASCII word \<open>w\<close> occurs in \<open>s\<close>, ignoring the case of ASCII
  letters.\<close>

definition containsCI :: "string \<Rightarrow> jstring \<Rightarrow> bool" where
  "containsCI w s \<longleftrightarrow>
     (\<exists>i \<le> length s. length w \<le> length (drop i s)
        \<and> map canonicalize (take (length w) (drop i s)) = map canonicalize (str w))"

text \<open>\<open>firstMatch P parts v\<close>: \<open>v\<close> is what \<open>parts.find(P) || ''\<close> gives, the first token
  that satisfies \<open>P\<close>, or the empty string when there is none.\<close>

definition firstMatch :: "(jstring \<Rightarrow> bool) \<Rightarrow> jstring list \<Rightarrow> jstring \<Rightarrow> bool" where
  "firstMatch P parts v \<longleftrightarrow>
     (v = [] \<and> (\<forall>p \<in> set parts. \<not> P p))
     \<or> (\<exists>i < length parts. parts ! i = v \<and> P v \<and> (\<forall>j < i. \<not> P (parts ! j)))"

text \<open>The lines of the header region: the trimmed lines before the first line that is a
  section label.\<close>

definition headerRegionLines :: "jstring \<Rightarrow> jstring list" where
  "headerRegionLines text =
     (case firstHeaderLine (headerLinesOf (normLines text)) (length (normLines text)) of
        None \<Rightarrow> []
      | Some first \<Rightarrow> slice 0 first (normLines text))"

text \<open>\<open>isLabel k line\<close>: the whole line is the label of the section \<open>k\<close>, ignoring case.\<close>

definition isLabel :: "skey \<Rightarrow> jstring \<Rightarrow> bool" where
  "isLabel k line \<longleftrightarrow>
     (case map_of headerLabels k of None \<Rightarrow> False | Some label \<Rightarrow> test (anchored label) line)"

definition labelKeys :: "skey list" where
  "labelKeys = map fst headerLabels"

text \<open>What the scan has established when it reaches line \<open>i\<close>.\<close>

definition scanInv :: "jstring list \<Rightarrow> nat \<Rightarrow> (skey \<times> nat) list \<times> skey list \<Rightarrow> bool" where
  "scanInv lines i st \<longleftrightarrow>
     snd st = map fst (fst st) \<and> distinct (snd st) \<and> set (snd st) \<subseteq> set labelKeys
     \<and> sorted (map snd (fst st))
     \<and> (\<forall>(k, j) \<in> set (fst st).
           j < i \<and> isLabel k (lines ! j) \<and> (\<forall>j' < j. \<not> isLabel k (lines ! j')))
     \<and> (\<forall>k \<in> set labelKeys. k \<notin> set (snd st) \<longrightarrow> (\<forall>j < i. \<not> isLabel k (lines ! j)))"

text \<open>The sections as ranges of line indices: the key, the first line and the line after
  the last line of the header region and of every region that the loop over
  \<open>headerLines\<close> cuts.\<close>

definition regionsOf :: "jstring list \<Rightarrow> (skey \<times> nat \<times> nat) list" where
  "regionsOf lines =
     (let headerLines = headerLinesOf lines; n = length lines
      in (case firstHeaderLine headerLines n of None \<Rightarrow> [] | Some first \<Rightarrow> [(Header, 0, first)])
         @ concat (map (\<lambda>i. case regionOf headerLines n i of None \<Rightarrow> [] | Some r \<Rightarrow> [r])
                     [0..<length headerLines]))"

definition span :: "skey \<times> nat \<times> nat \<Rightarrow> nat set" where
  "span r = {fst (snd r)..<snd (snd r)}"

text \<open>The category and the token list that a line of the skills section contributes, when it
  has the form \<open>category: rest\<close>.\<close>

definition skillLine :: "jstring \<Rightarrow> (jstring \<times> jstring list) option" where
  "skillLine line =
     (case exec skillsLineRe line of
        None \<Rightarrow> None
      | Some m \<Rightarrow>
          Some (trim (orEmpty (matchGroup m 1)),
                uniq (skillParts (trim (orEmpty (matchGroup m 2))))))"

text \<open>\<open>equalsCI w s\<close>: \<open>s\<close> is the ASCII word \<open>w\<close>, ignoring the case of ASCII letters.\<close>

definition equalsCI :: "string \<Rightarrow> jstring \<Rightarrow> bool" where
  "equalsCI w s \<longleftrightarrow> map canonicalize s = map canonicalize (str w)"

text \<open>\<open>ends r st\<close>: some match of \<open>r\<close> from the state \<open>st\<close> reaches the end of the input.\<close>

definition ends :: "regex \<Rightarrow> mstate \<Rightarrow> bool" where
  "ends r st \<longleftrightarrow> (\<exists>st' \<in> set (matches r st). fst (snd st') = [])"

text \<open>\<open>wordsCI w1 w2 s\<close>: \<open>s\<close> is the word \<open>w1\<close>, white space, and the word \<open>w2\<close>, ignoring
  case.\<close>

definition wordsCI :: "string \<Rightarrow> string \<Rightarrow> jstring \<Rightarrow> bool" where
  "wordsCI w1 w2 s \<longleftrightarrow>
     (\<exists>p ws e. s = p @ ws @ e \<and> equalsCI w1 p \<and> ws \<noteq> [] \<and> (\<forall>c \<in> set ws. isWhiteSpace c)
        \<and> equalsCI w2 e)"

text \<open>
  The section labels in the words of the specification: a line is the label of a section
  when the whole line, ignoring case, is Summary or Objective; Education; Experience,
  optionally after Professional and white space; Skills, optionally after Technical and
  white space; Projects; Certifications.
\<close>

definition labelLine :: "skey \<Rightarrow> jstring \<Rightarrow> bool" where
  "labelLine k line \<longleftrightarrow>
     (case k of
        Header \<Rightarrow> False
      | Summary \<Rightarrow> equalsCI ''Summary'' line \<or> equalsCI ''Objective'' line
      | Education \<Rightarrow> equalsCI ''Education'' line
      | Experience \<Rightarrow> equalsCI ''Experience'' line \<or> wordsCI ''Professional'' ''Experience'' line
      | Skills \<Rightarrow> equalsCI ''Skills'' line \<or> wordsCI ''Technical'' ''Skills'' line
      | Projects \<Rightarrow> equalsCI ''Projects'' line
      | Certifications \<Rightarrow> equalsCI ''Certifications'' line)"

section \<open>Captures and totality\<close>

lemma iter_capKeys:
  assumes step: "\<And>a b. b \<in> set (f a) \<Longrightarrow> capKeys a \<subseteq> capKeys b"
  shows "st' \<in> set (iter n f st) \<Longrightarrow> capKeys st \<subseteq> capKeys st'"
proof (induction n arbitrary: st)
  case 0
  then show ?case by simp
next
  case (Suc n)
  from Suc.prems consider "st' = st"
    | mid where "mid \<in> set (f st)" and "st' \<in> set (iter n f mid)"
    by auto
  then show ?case
  proof cases
    case 1
    then show ?thesis by simp
  next
    case 2
    from step[OF 2(1)] Suc.IH[OF 2(2)] show ?thesis by blast
  qed
qed

lemma matches_capKeys:
  "st' \<in> set (matches r st) \<Longrightarrow> capKeys st \<subseteq> capKeys st'"
proof (induction r arbitrary: st st')
  case (Atom p)
  then show ?case
    by (auto simp: capKeys_def split: prod.splits list.splits if_splits)
next
  case (Seq r1 r2)
  from Seq.prems obtain mid where "mid \<in> set (matches r1 st)" and "st' \<in> set (matches r2 mid)"
    by auto
  with Seq.IH show ?case by blast
next
  case (Alt r1 r2)
  from Alt.prems have "st' \<in> set (matches r1 st) \<or> st' \<in> set (matches r2 st)"
    by simp
  with Alt.IH show ?case by blast
next
  case (Opt r)
  from Opt.prems have "st' \<in> set (matches r st) \<or> st' = st"
    by auto
  with Opt.IH show ?case by blast
next
  case (Star r)
  from Star.prems have "st' \<in> set (iter (length (fst (snd st))) (matches r) st)"
    by simp
  then show ?case
    by (rule iter_capKeys[rotated]) (rule Star.IH)
next
  case (Grp n r)
  from Grp.prems obtain b' cs' g' where mid: "(b', cs', g') \<in> set (matches r st)"
    and st': "st' = (b', cs', AList.update n (rev (take (length b' - length (fst st)) b')) g')"
    by auto
  from Grp.IH[OF mid] have "capKeys st \<subseteq> fst ` set g'"
    by (simp add: capKeys_def)
  with st' show ?case
    by (auto simp: capKeys_def dom_update)
qed (auto split: if_splits)

lemma Grp_capKeys: "st' \<in> set (matches (Grp n r) st) \<Longrightarrow> n \<in> capKeys st'"
  by (auto simp: capKeys_def dom_update)

lemma captures_Grp: "captures n (Grp n r)"
  unfolding captures_def using Grp_capKeys by blast

lemma captures_Seq1: "captures n r1 \<Longrightarrow> captures n (Seq r1 r2)"
  unfolding captures_def using matches_capKeys by fastforce

lemma captures_Seq2: "captures n r2 \<Longrightarrow> captures n (Seq r1 r2)"
  unfolding captures_def by fastforce

lemma exec_from_Some:
  "exec_from r b s = Some (i, st') \<Longrightarrow> \<exists>b' cs'. st' \<in> set (matches r (b', cs', []))"
proof (induction s arbitrary: b)
  case Nil
  then have "st' \<in> set (matches r (b, [], []))"
    by (cases "matches r (b, [], [])") auto
  then show ?case by blast
next
  case (Cons c cs)
  show ?case
  proof (cases "matches r (b, c # cs, [])")
    case Nil
    with Cons.prems have "exec_from r (c # b) cs = Some (i, st')" by simp
    from Cons.IH[OF this] show ?thesis .
  next
    case (Cons st rest)
    with Cons.prems have "st' = st" by simp
    with Cons have "st' \<in> set (matches r (b, c # cs, []))" by simp
    then show ?thesis by blast
  qed
qed

lemma exec_captures:
  assumes "captures n r" and "exec r s = Some m"
  shows "\<exists>v. matchGroup m n = Some v"
proof -
  obtain i b cs g where m: "m = (i, b, cs, g)" by (cases m)
  with assms(2) obtain b' cs' where "(b, cs, g) \<in> set (matches r (b', cs', []))"
    unfolding exec_def by (blast dest: exec_from_Some)
  with assms(1) have "n \<in> fst ` set g"
    unfolding captures_def capKeys_def by fastforce
  then have "map_of g n \<noteq> None"
    by (simp add: map_of_eq_None_iff)
  with m show ?thesis
    by (auto simp: matchGroup_def)
qed

lemma skillsLineRe_captures: "captures 1 skillsLineRe" "captures 2 skillsLineRe"
  unfolding skillsLineRe_def seqs_def
  by (simp_all add: captures_Grp captures_Seq1 captures_Seq2)

subsection \<open>No extraction function fails\<close>

lemma skillsStep_total: "\<exists>skills'. skillsStep skills line = Some skills'"
proof (cases "exec skillsLineRe line")
  case None
  then show ?thesis by (simp add: skillsStep_def)
next
  case (Some m)
  from exec_captures[OF skillsLineRe_captures(1) Some] exec_captures[OF skillsLineRe_captures(2) Some]
  obtain category raw where "matchGroup m 1 = Some category" and "matchGroup m 2 = Some raw"
    by blast
  with Some show ?thesis by (simp add: skillsStep_def)
qed

lemma skillsLoop_total: "\<exists>result. skillsLoop lines skills = Some result"
proof (induction lines arbitrary: skills)
  case Nil
  show ?case by simp
next
  case (Cons line lines)
  obtain skills' where "skillsStep skills line = Some skills'"
    using skillsStep_total by blast
  with Cons.IH[of skills'] show ?case by simp
qed

lemma extractSkills_total: "\<exists>skills. extractSkills section = Some skills"
  by (simp add: extractSkills_def skillsLoop_total)

lemma bulletLoop_total: "\<exists>result. bulletLoop lines i bullets = Some result"
proof (induction lines i bullets rule: bulletLoop.induct)
  case (1 lines i bullets)
  show ?case
  proof (cases "i < length lines")
    case False
    then show ?thesis by (subst bulletLoop.simps) simp
  next
    case True
    with "1.IH" show ?thesis
      by (subst bulletLoop.simps) (auto simp: nth_opt_def)
  qed
qed

lemma expLoop_total: "\<exists>result. expLoop lines i items = Some result"
proof (induction lines i items rule: expLoop.induct)
  case (1 lines i items)
  show ?case
  proof (cases "i < length lines")
    case False
    then show ?thesis by (subst expLoop.simps) simp
  next
    case True
    then have line: "nth_opt lines i = Some (lines ! i)"
      by (simp add: nth_opt_def)
    show ?thesis
    proof (cases "test yearRe (lines ! i) \<and> test letterC (lines ! i)")
      case False
      with True line "1.IH"(2)[OF True line] show ?thesis
        by (subst expLoop.simps) auto
    next
      case hit: True
      obtain rl i' where next_line:
        "(if i + 1 < length lines
          then map_option (\<lambda>rl. (roleLocation rl, i + 2)) (nth_opt lines (i + 1))
          else Some (([], []), i + 1)) = Some (rl, i')"
        by (cases "i + 1 < length lines") (auto simp: nth_opt_def)
      obtain role location where rl: "rl = (role, location)" by (cases rl)
      obtain i'' bullets where bl: "bulletLoop lines i' [] = Some (i'', bullets)"
        using bulletLoop_total[of lines i' "[]"] by auto
      from "1.IH"(1)[OF True line hit next_line[unfolded rl] refl refl bl refl]
      obtain result where "expLoop lines i''
          (items @ [\<lparr>x_company = fst (companyDuration (lines ! i)), x_role = role,
                     x_duration = snd (companyDuration (lines ! i)),
                     x_location = location, x_bullets = bullets\<rparr>]) = Some result"
        by auto
      with True line hit next_line rl bl show ?thesis
        by (subst expLoop.simps) (simp del: One_nat_def)
    qed
  qed
qed

lemma extractExperience_total: "\<exists>items. extractExperience section = Some items"
  by (simp add: extractExperience_def expLoop_total)


lemma splitChar_nonempty: "splitChar sep s \<noteq> []"
  by (induction s) (auto split: list.splits)

lemma projLoop_total: "\<exists>result. projLoop lines i current items bulletsStarted = Some result"
proof (induction lines i current items bulletsStarted rule: projLoop.induct)
  case (1 lines i current items bulletsStarted)
  show ?case
  proof (cases "i < length lines")
    case False
    then show ?thesis by (subst projLoop.simps) simp
  next
    case True
    then have line: "nth_opt lines i = Some (lines ! i)"
      by (simp add: nth_opt_def)
    note IH = "1.IH"[OF True line]
    show ?thesis
      using True IH
      by (subst projLoop.simps)
        (auto simp: nth_opt_def Let_def splitChar_nonempty simp del: One_nat_def split: list.splits)
  qed
qed

lemma extractProjects_total: "\<exists>items. extractProjects section = Some items"
proof -
  obtain current items where
    "projLoop (contentLines section) 0 None [] False = Some (current, items)"
    using projLoop_total[of "contentLines section" 0 None "[]" False] by auto
  then show ?thesis by (simp add: extractProjects_def)
qed

lemma extractEducation_total: "\<exists>items. extractEducation section = Some items"
  by (simp add: extractEducation_def Let_def nth_opt_def)

lemma regionOf_Some:
  "i < length headerLines \<Longrightarrow>
     regionOf headerLines n i =
       Some (fst (headerLines ! i), snd (headerLines ! i) + 1,
             if i + 1 < length headerLines then snd (headerLines ! (i + 1)) else n)"
  by (auto simp: regionOf_def nth_opt_def split: prod.splits)

lemma sectionLoop_total:
  "\<forall>i \<in> set is. i < length headerLines
     \<Longrightarrow> \<exists>result. sectionLoop lines headerLines is sections = Some result"
proof (induction "is" arbitrary: sections)
  case Nil
  show ?case by simp
next
  case (Cons i "is")
  then have "i < length headerLines" by simp
  from regionOf_Some[OF this] Cons show ?case by simp
qed

lemma parseSections_total: "\<exists>ps. parseSections text = Some ps"
proof -
  let ?lines = "normLines text"
  let ?hl = "headerLinesOf ?lines"
  obtain first where first: "firstHeaderLine ?hl (length ?lines) = Some first"
    by (cases "length ?hl > 0") (auto simp: firstHeaderLine_def nth_opt_def)
  obtain sections where "sectionLoop ?lines ?hl [0..<length ?hl]
      [(Header, regionText ?lines 0 first)] = Some sections"
    using sectionLoop_total[of "[0..<length ?hl]" ?hl ?lines] by auto
  with first show ?thesis
    by (simp add: parseSections_def Let_def)
qed

lemma main_total: "\<exists>r. main text = Some r"
proof -
  obtain ps where ps: "parseSections text = Some ps"
    using parseSections_total by blast
  obtain skills where "extractSkills (sectionOr (ps_sections ps) Skills) = Some skills"
    using extractSkills_total by blast
  moreover obtain experience where
    "extractExperience (sectionOr (ps_sections ps) Experience) = Some experience"
    using extractExperience_total by blast
  moreover obtain projects where
    "extractProjects (sectionOr (ps_sections ps) Projects) = Some projects"
    using extractProjects_total by blast
  moreover obtain education where
    "extractEducation (sectionOr (ps_sections ps) Education) = Some education"
    using extractEducation_total by blast
  ultimately show ?thesis
    using ps by (simp add: main_def)
qed

section \<open>Deduplication of project entries\<close>

lemma dedupStep_keys:
  "map fst (dedupStep byName p) =
     (if keyOf p \<in> set (map fst byName) then map fst byName else map fst byName @ [keyOf p])"
proof (cases "map_of byName (keyOf p)")
  case None
  then have "keyOf p \<notin> fst ` set byName"
    by (simp add: map_of_eq_None_iff)
  with None show ?thesis
    by (simp add: dedupStep_def AList.update_keys)
next
  case (Some existing)
  then have "keyOf p \<in> fst ` set byName"
    by (metis domI dom_map_of_conv_image_fst)
  with Some show ?thesis
    by (simp add: dedupStep_def AList.update_keys)
qed

lemma byName_keys:
  "map fst (foldl dedupStep [] items) = rev (remdups (rev (map keyOf items)))"
proof (induction items rule: rev_induct)
  case Nil
  show ?case by simp
next
  case (snoc p ps)
  have "set (map fst (foldl dedupStep [] ps)) = keyOf ` set ps"
    by (simp add: snoc.IH)
  then show ?case
    by (simp add: dedupStep_keys snoc.IH image_iff)
qed

lemma byName_distinct: "distinct (map fst (foldl dedupStep [] items))"
  by (simp add: byName_keys)

lemma find_Some_mem: "find P xs = Some x \<Longrightarrow> x \<in> set xs"
  by (induction xs) (auto split: if_splits)

lemma find_snoc:
  "find P (xs @ [x]) = (case find P xs of None \<Rightarrow> (if P x then Some x else None) | Some y \<Rightarrow> Some y)"
  by (induction xs) auto

lemma kept_snoc_other:
  "kept items k p \<Longrightarrow> keyOf x \<noteq> k \<Longrightarrow> kept (items @ [x]) k p"
  by (auto simp: kept_def find_snoc)

lemma kept_snoc_poorer:
  "kept items k p \<Longrightarrow> \<not> richness p < richness x \<Longrightarrow> kept (items @ [x]) k p"
  by (auto simp: kept_def find_snoc)

lemma kept_snoc_richer:
  assumes "kept items k p" and "keyOf x = k" and "richness p < richness x"
  shows "kept (items @ [x]) k x"
proof -
  have "\<forall>q \<in> set items. keyOf q = k \<longrightarrow> richness q < richness x"
    using assms by (fastforce simp: kept_def)
  then have "find (\<lambda>q. keyOf q = k \<and> richness x \<le> richness q) items = None"
    by (auto simp: find_None_iff)
  with assms \<open>\<forall>q \<in> set items. keyOf q = k \<longrightarrow> richness q < richness x\<close> show ?thesis
    by (auto simp: kept_def find_snoc less_imp_le)
qed

lemma kept_snoc_new:
  assumes "keyOf x \<notin> keyOf ` set items"
  shows "kept (items @ [x]) (keyOf x) x"
proof -
  have none: "\<forall>q \<in> set items. keyOf q \<noteq> keyOf x"
    using assms by (metis image_eqI)
  then have "find (\<lambda>q. keyOf q = keyOf x \<and> richness x \<le> richness q) items = None"
    unfolding find_None_iff by blast
  with none show ?thesis
    by (simp add: kept_def find_snoc)
qed

lemma byName_kept:
  "map_of (foldl dedupStep [] items) k = Some p \<Longrightarrow> kept items k p"
proof (induction items arbitrary: k p rule: rev_induct)
  case Nil
  then show ?case by simp
next
  case (snoc x xs)
  let ?al = "foldl dedupStep [] xs"
  have keys: "set (map fst ?al) = keyOf ` set xs"
    by (simp add: byName_keys)
  show ?case
  proof (cases "map_of ?al (keyOf x)")
    case None
    then have new: "keyOf x \<notin> keyOf ` set xs"
      using keys by (simp add: map_of_eq_None_iff)
    from None have step: "foldl dedupStep [] (xs @ [x]) = AList.update (keyOf x) x ?al"
      by (simp add: dedupStep_def)
    show ?thesis
    proof (cases "k = keyOf x")
      case True
      with snoc.prems step have "p = x" by (simp add: update_conv')
      with True kept_snoc_new[OF new] show ?thesis by simp
    next
      case False
      with snoc.prems step have "map_of ?al k = Some p" by (simp add: update_conv')
      from kept_snoc_other[OF snoc.IH[OF this]] False show ?thesis by simp
    qed
  next
    case (Some existing)
    note ex = snoc.IH[OF Some]
    show ?thesis
    proof (cases "richness existing < richness x")
      case True
      with Some have step: "foldl dedupStep [] (xs @ [x]) = AList.update (keyOf x) x ?al"
        by (simp add: dedupStep_def)
      show ?thesis
      proof (cases "k = keyOf x")
        case k: True
        with snoc.prems step have "p = x" by (simp add: update_conv')
        with k kept_snoc_richer[OF ex refl True] show ?thesis by simp
      next
        case False
        with snoc.prems step have "map_of ?al k = Some p" by (simp add: update_conv')
        from kept_snoc_other[OF snoc.IH[OF this]] False show ?thesis by simp
      qed
    next
      case False
      with Some have step: "foldl dedupStep [] (xs @ [x]) = ?al"
        by (simp add: dedupStep_def)
      with snoc.prems have look: "map_of ?al k = Some p" by simp
      show ?thesis
      proof (cases "k = keyOf x")
        case True
        with look Some have "p = existing" by simp
        with True ex kept_snoc_poorer[of xs k existing x] False show ?thesis by simp
      next
        case nk: False
        from kept_snoc_other[OF snoc.IH[OF look]] nk show ?thesis by simp
      qed
    qed
  qed
qed

lemma byName_key_of_entry:
  "(k, p) \<in> set (foldl dedupStep [] items) \<Longrightarrow> keyOf p = k"
  using byName_kept[of items k p] byName_distinct[of items]
  by (simp add: kept_def)

lemma dedupe_fixed:
  "distinct (map fst (acc @ rest)) \<Longrightarrow> \<forall>(k, p) \<in> set rest. keyOf p = k
     \<Longrightarrow> foldl dedupStep acc (map snd rest) = acc @ rest"
proof (induction rest arbitrary: acc)
  case Nil
  show ?case by simp
next
  case (Cons kp rest)
  obtain k p where kp: "kp = (k, p)" by (cases kp)
  from Cons.prems kp have key: "keyOf p = k" and fresh: "k \<notin> fst ` set acc"
    by auto
  from fresh have "map_of acc k = None"
    by (simp add: map_of_eq_None_iff)
  moreover from fresh have "AList.update k p acc = acc @ [(k, p)]"
    by (induction acc) auto
  ultimately have step: "dedupStep acc p = acc @ [(k, p)]"
    using key by (simp add: dedupStep_def)
  from Cons.prems kp have "distinct (map fst ((acc @ [(k, p)]) @ rest))"
    and "\<forall>(k, p) \<in> set rest. keyOf p = k"
    by auto
  from Cons.IH[OF this] step kp show ?case by simp
qed

text \<open>
  Claim C4. For every list of emitted project entries, the deduplicated list has exactly one
  entry for each normalised name, in the order in which the normalised names first occur
  in the input (the keys of the output are the keys of the input with every repetition
  after the first removed). The entry kept for a name is an entry of the input, no entry
  of the input with that name has a higher richness score, and it is the first entry
  of the input with that name whose richness is at least its own: the richest entry,
  and among equally rich ones the one seen first.
\<close>

theorem dedupe_keeps_richest_first_seen:
  "map keyOf (dedupe items) = rev (remdups (rev (map keyOf items)))
   \<and> (\<forall>p \<in> set (dedupe items).
        p \<in> set items
        \<and> (\<forall>q \<in> set items. keyOf q = keyOf p \<longrightarrow> richness q \<le> richness p)
        \<and> find (\<lambda>q. keyOf q = keyOf p \<and> richness p \<le> richness q) items = Some p)"
proof -
  let ?al = "foldl dedupStep [] items"
  have "map keyOf (map snd ?al) = map fst ?al"
    by (auto dest: byName_key_of_entry)
  then have order: "map keyOf (dedupe items) = rev (remdups (rev (map keyOf items)))"
    by (simp add: dedupe_def byName_keys)
  have "kept items (keyOf p) p" if "p \<in> set (dedupe items)" for p
  proof -
    from that obtain k where "(k, p) \<in> set ?al" by (auto simp: dedupe_def)
    then have "map_of ?al k = Some p" using byName_distinct by simp
    from byName_kept[OF this] show ?thesis by (simp add: kept_def)
  qed
  then have "\<forall>p \<in> set (dedupe items).
        p \<in> set items
        \<and> (\<forall>q \<in> set items. keyOf q = keyOf p \<longrightarrow> richness q \<le> richness p)
        \<and> find (\<lambda>q. keyOf q = keyOf p \<and> richness p \<le> richness q) items = Some p"
    unfolding kept_def by (blast dest: find_Some_mem)
  with order show ?thesis by simp
qed

theorem dedupe_keeps_richest_first_seen_witness:
  "dedupe
     [newProject (str ''Portfolio Site'')\<lparr>p_bullets := [str ''one'']\<rparr>,
      newProject (str ''Blog'')\<lparr>p_description := str ''posts''\<rparr>,
      newProject (str ''portfolio-site'')
        \<lparr>p_bullets := [str ''a'', str ''b'', str ''c''], p_tech := [str ''React'', str ''Next'']\<rparr>]
   = [newProject (str ''portfolio-site'')
        \<lparr>p_bullets := [str ''a'', str ''b'', str ''c''], p_tech := [str ''React'', str ''Next'']\<rparr>,
      newProject (str ''Blog'')\<lparr>p_description := str ''posts''\<rparr>]
   \<and> map keyOf
       [newProject (str ''portfolio-site'')
          \<lparr>p_bullets := [str ''a'', str ''b'', str ''c''], p_tech := [str ''React'', str ''Next'']\<rparr>,
        newProject (str ''Blog'')\<lparr>p_description := str ''posts''\<rparr>]
     = [str ''portfolio site'', str ''blog'']
   \<and> find (\<lambda>q. keyOf q = str ''portfolio site'' \<and> 15 \<le> richness q)
       [newProject (str ''Portfolio Site'')\<lparr>p_bullets := [str ''one'']\<rparr>,
        newProject (str ''Blog'')\<lparr>p_description := str ''posts''\<rparr>,
        newProject (str ''portfolio-site'')
          \<lparr>p_bullets := [str ''a'', str ''b'', str ''c''], p_tech := [str ''React'', str ''Next'']\<rparr>]
     = Some (newProject (str ''portfolio-site'')
        \<lparr>p_bullets := [str ''a'', str ''b'', str ''c''], p_tech := [str ''React'', str ''Next'']\<rparr>)
   \<and> richness (newProject (str ''Portfolio Site'')\<lparr>p_bullets := [str ''one'']\<rparr>) \<le> 15"
proof -
  let ?a = "newProject (str ''Portfolio Site'')\<lparr>p_bullets := [str ''one'']\<rparr>"
  let ?b = "newProject (str ''Blog'')\<lparr>p_description := str ''posts''\<rparr>"
  let ?c = "newProject (str ''portfolio-site'')
        \<lparr>p_bullets := [str ''a'', str ''b'', str ''c''], p_tech := [str ''React'', str ''Next'']\<rparr>"
  have out: "dedupe [?a, ?b, ?c] = [?c, ?b]"
    by code_simp
  have key: "keyOf ?c = str ''portfolio site''" and keyb: "keyOf ?b = str ''blog''"
    by code_simp+
  have rich: "richness ?c = 15"
    by code_simp
  have keya: "keyOf ?a = str ''portfolio site''"
    by code_simp
  from dedupe_keeps_richest_first_seen[of "[?a, ?b, ?c]"]
  have all: "\<forall>p \<in> set (dedupe [?a, ?b, ?c]).
          find (\<lambda>q. keyOf q = keyOf p \<and> richness p \<le> richness q) [?a, ?b, ?c] = Some p"
    and most: "\<forall>p \<in> set (dedupe [?a, ?b, ?c]).
          \<forall>q \<in> set [?a, ?b, ?c]. keyOf q = keyOf p \<longrightarrow> richness q \<le> richness p"
    by blast+
  have mem: "?c \<in> set (dedupe [?a, ?b, ?c])"
    by (subst out) (rule list.set_intros(1))
  have "find (\<lambda>q. keyOf q = keyOf ?c \<and> richness ?c \<le> richness q) [?a, ?b, ?c] = Some ?c"
    by (rule bspec[OF all mem])
  then have first: "find (\<lambda>q. keyOf q = str ''portfolio site'' \<and> 15 \<le> richness q) [?a, ?b, ?c]
      = Some ?c"
    by (simp only: key rich)
  have keys: "map keyOf [?c, ?b] = [str ''portfolio site'', str ''blog'']"
    by (simp only: list.map key keyb)
  have "?a \<in> set [?a, ?b, ?c]"
    by (rule list.set_intros(1))
  with most mem have "keyOf ?a = keyOf ?c \<longrightarrow> richness ?a \<le> richness ?c"
    by blast
  then have poorer: "richness ?a \<le> 15"
    by (simp only: key keya rich)
  from out keys first poorer show ?thesis
    by (intro conjI)
qed

text \<open>
  Claim C8. Deduplication is idempotent: deduplicating an already deduplicated list of
  project entries returns it unchanged, the same entries in the same order.
\<close>

theorem dedupe_idempotent: "dedupe (dedupe items) = dedupe items"
proof -
  let ?al = "foldl dedupStep [] items"
  have "foldl dedupStep [] (map snd ?al) = [] @ ?al"
    by (rule dedupe_fixed) (auto simp: byName_distinct dest: byName_key_of_entry)
  then show ?thesis by (simp add: dedupe_def)
qed

section \<open>The experience extractor on scenario B\<close>

text \<open>
  Claim C7. On the experience section with the four lines
  \<open>Acme Corp  Jan 2020 - Present\<close>, \<open>Engineer, Remote\<close>, \<open>\<bullet> Built the thing\<close> and
  \<open>improved performance\<close>, the extractor returns exactly one entry: company
  \<open>Acme Corp\<close>, duration \<open>Jan 2020 - Present\<close>, role \<open>Engineer\<close>, location \<open>Remote\<close>, and the
  single bullet \<open>Built the thing improved performance\<close>, the unmarked line being
  appended to the bullet before it after one space.
\<close>

theorem scenario_B:
  "extractExperience
     (str ''Acme Corp  Jan 2020 - Present'' @ [10] @ str ''Engineer, Remote'' @ [10]
      @ [bullet] @ str '' Built the thing'' @ [10] @ str ''improved performance'')
   = Some [\<lparr>x_company = str ''Acme Corp'', x_role = str ''Engineer'',
            x_duration = str ''Jan 2020 - Present'', x_location = str ''Remote'',
            x_bullets = [str ''Built the thing improved performance'']\<rparr>]"
  by code_simp

section \<open>What a regular expression test decides\<close>

lemma exec_from_None_iff:
  "exec_from r b s = None \<longleftrightarrow>
     (\<forall>i \<le> length s. matches r (rev (take i s) @ b, drop i s, []) = [])"
proof (induction s arbitrary: b)
  case Nil
  show ?case by (simp split: list.splits)
next
  case (Cons c cs)
  have split_i: "(\<forall>i \<le> Suc (length cs). Q i) \<longleftrightarrow> Q 0 \<and> (\<forall>j \<le> length cs. Q (Suc j))" for Q
    by (metis Suc_le_mono le0 not0_implies_Suc)
  show ?case
  proof (cases "matches r (b, c # cs, [])")
    case Nil
    then show ?thesis
      by (simp add: Cons.IH split_i)
  next
    case (Cons st rest)
    then show ?thesis
      by (auto simp: split_i)
  qed
qed

lemma test_iff:
  "test r s \<longleftrightarrow> (\<exists>i \<le> length s. matches r (rev (take i s), drop i s, []) \<noteq> [])"
  using exec_from_None_iff[of r "[]" s] by (auto simp: test_def exec_def)

lemma test_Alt: "test (Alt r1 r2) s \<longleftrightarrow> test r1 s \<or> test r2 s"
  by (auto simp: test_iff)

lemma matches_seqs_Atom:
  "matches (seqs (Atom p # rs)) (b, cs, g) =
     (case cs of [] \<Rightarrow> [] | c # cs' \<Rightarrow> if p c then matches (seqs rs) (c # b, cs', g) else [])"
  by (simp add: seqs_def split: list.splits)

lemma matches_liti:
  "matches (liti w) (b, cs, g) \<noteq> [] \<longleftrightarrow>
     length w \<le> length cs \<and> map canonicalize (take (length w) cs) = map canonicalize (str w)"
proof (induction w arbitrary: b cs)
  case Nil
  show ?case by (simp add: liti_def seqs_def str_def)
next
  case (Cons a w)
  have unfold: "liti (a # w) = seqs (Atom (\<lambda>x. canonicalize x = canonicalize (of_char a)) # map chri w)"
    by (simp add: liti_def chri_def)
  show ?case
  proof (cases cs)
    case Nil
    then show ?thesis by (simp add: unfold matches_seqs_Atom)
  next
    case (Cons c cs')
    then show ?thesis
      using Cons.IH[of "c # b" cs']
      by (simp add: unfold matches_seqs_Atom liti_def[symmetric] str_def)
  qed
qed

lemma test_liti: "test (liti w) s \<longleftrightarrow> containsCI w s"
  by (simp add: test_iff matches_liti containsCI_def)

lemma test_chr: "test (chr c) s \<longleftrightarrow> of_char c \<in> set s"
proof -
  have "matches (chr c) (b, cs, g) \<noteq> [] \<longleftrightarrow> cs \<noteq> [] \<and> hd cs = of_char c" for b cs g
    by (cases cs) (auto simp: chr_def)
  then have "test (chr c) s \<longleftrightarrow> (\<exists>i \<le> length s. drop i s \<noteq> [] \<and> hd (drop i s) = of_char c)"
    by (simp add: test_iff)
  also have "\<dots> \<longleftrightarrow> (\<exists>i < length s. s ! i = of_char c)"
  proof
    assume "\<exists>i \<le> length s. drop i s \<noteq> [] \<and> hd (drop i s) = of_char c"
    then obtain i where i: "drop i s \<noteq> []" "hd (drop i s) = of_char c"
      by blast
    then have "i < length s" by simp
    with i have "s ! i = of_char c" by (simp add: hd_drop_conv_nth)
    with \<open>i < length s\<close> show "\<exists>i < length s. s ! i = of_char c" by blast
  next
    assume "\<exists>i < length s. s ! i = of_char c"
    then obtain i where "i < length s" "s ! i = of_char c"
      by blast
    then have "i \<le> length s \<and> drop i s \<noteq> [] \<and> hd (drop i s) = of_char c"
      by (simp add: hd_drop_conv_nth)
    then show "\<exists>i \<le> length s. drop i s \<noteq> [] \<and> hd (drop i s) = of_char c"
      by blast
  qed
  also have "\<dots> \<longleftrightarrow> of_char c \<in> set s"
    by (auto simp: in_set_conv_nth)
  finally show ?thesis .
qed

lemma isEmail_iff: "isEmail p \<longleftrightarrow> 64 \<in> set p"
  by (simp add: isEmail_def emailRe_def test_chr)

lemma isWebsite_iff:
  "isWebsite p \<longleftrightarrow>
     46 \<in> set p \<and> 64 \<notin> set p
     \<and> (containsCI ''malik'' p \<or> containsCI ''sha256'' p \<or> containsCI ''http'' p)"
  by (simp add: isWebsite_def dotRe_def emailRe_def allowRe_def test_chr test_Alt test_liti)

lemma isLinkedin_iff: "isLinkedin p \<longleftrightarrow> containsCI ''linkedin.com'' p"
  by (simp add: isLinkedin_def linkedinRe_def test_liti)

lemma isGithub_iff: "isGithub p \<longleftrightarrow> containsCI ''github.com'' p"
  by (simp add: isGithub_def githubRe_def test_liti)

section \<open>The contact bundle\<close>

lemma firstMatch_find: "firstMatch P parts (orEmpty (find P parts))"
proof (cases "find P parts")
  case None
  then have "\<forall>p \<in> set parts. \<not> P p"
    by (simp add: find_None_iff)
  with None show ?thesis
    by (simp add: firstMatch_def orEmpty_def)
next
  case (Some v)
  then have "\<exists>i < length parts. parts ! i = v \<and> P v \<and> (\<forall>j < i. \<not> P (parts ! j))"
    unfolding find_Some_iff by blast
  with Some show ?thesis
    by (simp add: firstMatch_def orEmpty_def)
qed


lemma find_Some_sat: "find P xs = Some x \<Longrightarrow> P x"
  by (induction xs) (auto split: if_splits)

lemma find_orEmpty_sat: "orEmpty (find P parts) \<noteq> [] \<Longrightarrow> P (orEmpty (find P parts))"
  by (cases "find P parts") (auto simp: orEmpty_def dest: find_Some_sat)

lemma website_not_email:
  "website (contactOf parts) \<noteq> [] \<Longrightarrow> website (contactOf parts) \<noteq> email (contactOf parts)"
proof
  assume nonempty: "website (contactOf parts) \<noteq> []"
    and same: "website (contactOf parts) = email (contactOf parts)"
  from nonempty have "isWebsite (website (contactOf parts))"
    by (simp add: contactOf_def find_orEmpty_sat)
  moreover from nonempty same have "isEmail (email (contactOf parts))"
    by (simp add: contactOf_def find_orEmpty_sat)
  ultimately show False
    using same by (simp add: isWebsite_def isEmail_def)
qed

text \<open>
  Claim C1, as amended. Each field of the contact bundle is found on its own: it is the
  first token of the contact line that matches the pattern of that field, or the empty
  string when no token does. No token is claimed: the same token can be the value of
  several fields. Only the website pattern excludes a token with an \<open>@\<close>, so a website
  value is never the email value.
\<close>

theorem contact_fields_found_independently:
  "h_contact (extractHeader lines) = Some (contactOf (contactParts (secondLine lines)))
   \<and> firstMatch isEmail (contactParts (secondLine lines))
       (email (contactOf (contactParts (secondLine lines))))
   \<and> firstMatch isPhone (contactParts (secondLine lines))
       (phone (contactOf (contactParts (secondLine lines))))
   \<and> firstMatch isLinkedin (contactParts (secondLine lines))
       (linkedin (contactOf (contactParts (secondLine lines))))
   \<and> firstMatch isGithub (contactParts (secondLine lines))
       (github (contactOf (contactParts (secondLine lines))))
   \<and> firstMatch isWebsite (contactParts (secondLine lines))
       (website (contactOf (contactParts (secondLine lines))))
   \<and> (website (contactOf (contactParts (secondLine lines))) \<noteq> []
        \<longrightarrow> website (contactOf (contactParts (secondLine lines)))
            \<noteq> email (contactOf (contactParts (secondLine lines))))"
  using website_not_email[of "contactParts (secondLine lines)"]
  by (simp add: extractHeader_def contactOf_def firstMatch_find)

theorem contact_fields_found_independently_witness:
  "h_contact (extractHeader [str ''Jane Doe'', str ''jane@x.com | github.com/malik''])
     = Some \<lparr>email = str ''jane@x.com'', phone = [], website = str ''github.com/malik'',
             linkedin = [], github = str ''github.com/malik'', c_location = []\<rparr>
   \<and> firstMatch isWebsite [str ''jane@x.com'', str ''github.com/malik''] (str ''github.com/malik'')
   \<and> str ''github.com/malik'' \<noteq> str ''jane@x.com''"
proof -
  let ?lines = "[str ''Jane Doe'', str ''jane@x.com | github.com/malik'']"
  have parts: "contactParts (secondLine ?lines) = [str ''jane@x.com'', str ''github.com/malik'']"
    by code_simp
  have c: "contactOf [str ''jane@x.com'', str ''github.com/malik'']
      = \<lparr>email = str ''jane@x.com'', phone = [], website = str ''github.com/malik'',
         linkedin = [], github = str ''github.com/malik'', c_location = []\<rparr>"
    by code_simp
  have ne: "str ''github.com/malik'' \<noteq> []"
    by (simp add: str_def)
  from contact_fields_found_independently[of ?lines] ne show ?thesis
    unfolding parts c by simp
qed

text \<open>
  Claim C1 as stated fails: on the contact line \<open>jane@x.com | github.com/malik\<close> the token
  \<open>github.com/malik\<close> is the value of both the github and the website field.
\<close>

theorem contact_token_in_two_fields:
  "map_option github (h_contact (extractHeader [str ''Jane Doe'', str ''jane@x.com | github.com/malik'']))
     = Some (str ''github.com/malik'')
   \<and> map_option website (h_contact (extractHeader [str ''Jane Doe'', str ''jane@x.com | github.com/malik'']))
     = Some (str ''github.com/malik'')"
  by code_simp

text \<open>
  Claim C6, as amended. The website field is the first token of the contact line that
  contains a dot, contains no \<open>@\<close>, and contains one of \<open>malik\<close>, \<open>sha256\<close> and \<open>http\<close>
  (ignoring case), or the empty string when there is no such token. A token that is also
  the linkedin or github value is not excluded, and a token with a dot but none of the
  three words is not a website.
\<close>

theorem website_needs_allowed_word:
  "firstMatch
     (\<lambda>p. 46 \<in> set p \<and> 64 \<notin> set p
          \<and> (containsCI ''malik'' p \<or> containsCI ''sha256'' p \<or> containsCI ''http'' p))
     (contactParts line) (website (contactOf (contactParts line)))"
proof -
  have "isWebsite = (\<lambda>p. 46 \<in> set p \<and> 64 \<notin> set p
          \<and> (containsCI ''malik'' p \<or> containsCI ''sha256'' p \<or> containsCI ''http'' p))"
    by (rule ext) (rule isWebsite_iff)
  then show ?thesis
    using firstMatch_find[of isWebsite "contactParts line"]
    by (simp add: contactOf_def)
qed

theorem website_needs_allowed_word_witness:
  "firstMatch
     (\<lambda>p. 46 \<in> set p \<and> 64 \<notin> set p
          \<and> (containsCI ''malik'' p \<or> containsCI ''sha256'' p \<or> containsCI ''http'' p))
     [str ''example.com'', str ''HTTPS://x.dev''] (str ''HTTPS://x.dev'')"
proof -
  have parts: "contactParts (str ''example.com | HTTPS://x.dev'')
      = [str ''example.com'', str ''HTTPS://x.dev'']"
    by code_simp
  have w: "website (contactOf [str ''example.com'', str ''HTTPS://x.dev'']) = str ''HTTPS://x.dev''"
    by code_simp
  from website_needs_allowed_word[of "str ''example.com | HTTPS://x.dev''"] show ?thesis
    unfolding parts w .
qed

text \<open>
  Claim C6 as stated fails: the token \<open>example.com\<close> contains a dot and is not an email,
  linkedin or github token, and the website field stays empty.
\<close>

theorem dotted_token_not_website:
  "46 \<in> set (str ''example.com'') \<and> \<not> isEmail (str ''example.com'')
   \<and> \<not> isLinkedin (str ''example.com'') \<and> \<not> isGithub (str ''example.com'')
   \<and> map_option website (h_contact (extractHeader [str ''Jane Doe'', str ''example.com''])) = Some []"
  by code_simp

section \<open>Trimming\<close>

lemma trim_ends:
  "trim s = [] \<or> (\<not> isWhiteSpace (hd (trim s)) \<and> \<not> isWhiteSpace (last (trim s)))"
proof -
  let ?u = "dropWhile isWhiteSpace s"
  let ?v = "dropWhile isWhiteSpace (rev ?u)"
  have t: "trim s = rev ?v" by (simp add: trim_def)
  show ?thesis
  proof (cases "?v = []")
    case True
    with t show ?thesis by simp
  next
    case False
    then have hv: "\<not> isWhiteSpace (hd ?v)" by (rule hd_dropWhile)
    have u: "?u \<noteq> []"
    proof
      assume "?u = []"
      then have "?v = []" by (simp only: rev.simps dropWhile.simps)
      with False show False ..
    qed
    then have hu: "\<not> isWhiteSpace (hd ?u)" by (rule hd_dropWhile)
    have "rev ?u = takeWhile isWhiteSpace (rev ?u) @ ?v" by simp
    with False have "last (rev ?u) = last ?v" by (metis last_appendR)
    with u hu have "\<not> isWhiteSpace (last ?v)" by (simp add: last_rev)
    with hv False t show ?thesis by (simp add: hd_rev last_rev)
  qed
qed

lemma trim_idem: "trim (trim s) = trim s"
proof (cases "trim s = []")
  case True
  have "trim [] = []" by (simp add: trim_def)
  with True show ?thesis by simp
next
  case False
  with trim_ends[of s] have h: "\<not> isWhiteSpace (hd (trim s))" and l: "\<not> isWhiteSpace (last (trim s))"
    by auto
  from False h have "dropWhile isWhiteSpace (trim s) = trim s"
    by (cases "trim s") auto
  moreover from False l have "dropWhile isWhiteSpace (rev (trim s)) = rev (trim s)"
    by (cases "rev (trim s)") (auto simp: hd_rev)
  ultimately show ?thesis
    by (simp add: trim_def[of "trim s"])
qed

lemma normLines_trimmed: "l \<in> set (normLines text) \<Longrightarrow> trim l = l"
  by (auto simp: normLines_def trim_idem)

section \<open>The assembled record\<close>

lemma parseSections_lines:
  assumes "parseSections text = Some ps"
  shows "ps_lines ps = contentLines text"
proof -
  let ?lines = "normLines text"
  let ?hl = "headerLinesOf ?lines"
  obtain first where first: "firstHeaderLine ?hl (length ?lines) = Some first"
    using assms by (cases "firstHeaderLine ?hl (length ?lines)")
      (simp_all add: parseSections_def Let_def)
  obtain sections where sections:
    "sectionLoop ?lines ?hl [0..<length ?hl] [(Header, regionText ?lines 0 first)] = Some sections"
    using assms first
    by (cases "sectionLoop ?lines ?hl [0..<length ?hl] [(Header, regionText ?lines 0 first)]")
      (simp_all add: parseSections_def Let_def)
  from assms first sections
  have "ps_lines ps = filter (\<lambda>l. length l > 0) ?lines"
    by (auto simp: parseSections_def Let_def)
  then show ?thesis
    by (simp add: contentLines_def filterBoolean_def normLines_def)
qed

lemma contentLines_nonempty:
  assumes "l \<in> set (contentLines text)"
  shows "l \<noteq> []" and "trim l = l"
proof -
  from assms have l: "l \<in> set (normLines text)" and ne: "l \<noteq> []"
    by (simp_all add: contentLines_def filterBoolean_def normLines_def)
  from ne show "l \<noteq> []" .
  from l show "trim l = l" by (rule normLines_trimmed)
qed

lemma nonEmptyLines_contentLines: "nonEmptyLines (contentLines text) = contentLines text"
proof -
  have "\<forall>l \<in> set (contentLines text). length (trim l) > 0"
    using contentLines_nonempty by simp
  then show ?thesis
    unfolding nonEmptyLines_def by (simp only: filter_True)
qed

lemma name_of_contentLines:
  "h_name (extractHeader (contentLines text)) =
     (case contentLines text of [] \<Rightarrow> None | l # _ \<Rightarrow> Some l)"
proof (cases "contentLines text")
  case Nil
  then show ?thesis
    using nonEmptyLines_contentLines[of "text"]
    by (simp add: extractHeader_def firstLine_def nth_opt_def orEmpty_def)
next
  case (Cons l ls)
  then have "l \<noteq> [] \<and> trim l = l"
    using contentLines_nonempty[of l "text"] by simp
  with Cons show ?thesis
    using nonEmptyLines_contentLines[of "text"]
    by (simp add: extractHeader_def firstLine_def nth_opt_def orEmpty_def)
qed

lemma contact_of_contentLines:
  "h_contact (extractHeader (contentLines text)) =
     Some (contactOf (contactParts (case contentLines text of _ # l # _ \<Rightarrow> l | _ \<Rightarrow> [])))"
  using nonEmptyLines_contentLines[of "text"]
  by (simp add: extractHeader_def secondLine_def nth_opt_def orEmpty_def split: list.splits)

lemma main_Some:
  assumes "main text = Some r"
  shows "\<exists>ps skills experience projects education.
           parseSections text = Some ps
           \<and> r = \<lparr>r_name = h_name (extractHeader (ps_lines ps)),
                   r_headline = None,
                   r_contact = h_contact (extractHeader (ps_lines ps)),
                   r_summary = summaryOf (ps_sections ps),
                   r_skills = Some skills,
                   r_experience = Some experience,
                   r_projects = Some projects,
                   r_education = Some education,
                   r_certifications =
                     Some (extractList (sectionOr (ps_sections ps) Certifications))\<rparr>"
proof -
  obtain ps where ps: "parseSections text = Some ps"
    using assms by (cases "parseSections text") (simp_all add: main_def)
  obtain skills where sk: "extractSkills (sectionOr (ps_sections ps) Skills) = Some skills"
    using extractSkills_total by blast
  obtain experience where
    ex: "extractExperience (sectionOr (ps_sections ps) Experience) = Some experience"
    using extractExperience_total by blast
  obtain projects where
    pr: "extractProjects (sectionOr (ps_sections ps) Projects) = Some projects"
    using extractProjects_total by blast
  obtain education where
    ed: "extractEducation (sectionOr (ps_sections ps) Education) = Some education"
    using extractEducation_total by blast
  from assms ps sk ex pr ed show ?thesis
    by (auto simp: main_def)
qed

lemma main_fields:
  assumes "main text = Some r"
  shows "r_name r = h_name (extractHeader (contentLines text))"
    and "r_contact r = h_contact (extractHeader (contentLines text))"
    and "r_headline r = None"
    and "r_skills r \<noteq> None" and "r_experience r \<noteq> None" and "r_projects r \<noteq> None"
    and "r_education r \<noteq> None" and "r_certifications r \<noteq> None"
    and "\<exists>sections. r_summary r = summaryOf sections"
proof -
  from main_Some[OF assms] obtain ps skills experience projects education where
    ps: "parseSections text = Some ps"
    and r: "r = \<lparr>r_name = h_name (extractHeader (ps_lines ps)),
                   r_headline = None,
                   r_contact = h_contact (extractHeader (ps_lines ps)),
                   r_summary = summaryOf (ps_sections ps),
                   r_skills = Some skills,
                   r_experience = Some experience,
                   r_projects = Some projects,
                   r_education = Some education,
                   r_certifications =
                     Some (extractList (sectionOr (ps_sections ps) Certifications))\<rparr>"
    by blast
  note lines = parseSections_lines[OF ps]
  show "r_name r = h_name (extractHeader (contentLines text))"
    by (simp add: r lines)
  show "r_contact r = h_contact (extractHeader (contentLines text))"
    by (simp add: r lines)
  show "r_headline r = None" by (simp add: r)
  show "r_skills r \<noteq> None" by (simp add: r)
  show "r_experience r \<noteq> None" by (simp add: r)
  show "r_projects r \<noteq> None" by (simp add: r)
  show "r_education r \<noteq> None" by (simp add: r)
  show "r_certifications r \<noteq> None" by (simp add: r)
  show "\<exists>sections. r_summary r = summaryOf sections"
    by (auto simp: r)
qed

lemma summaryOf_not_empty: "summaryOf sections \<noteq> Some []"
  by (simp add: summaryOf_def Let_def split: option.splits)

lemma filter_take_prefix: "\<exists>zs. filter P xs = filter P (take n xs) @ zs"
proof -
  have "filter P xs = filter P (take n xs @ drop n xs)" by simp
  also have "\<dots> = filter P (take n xs) @ filter P (drop n xs)" by (rule filter_append)
  finally show ?thesis by blast
qed

lemma headerRegion_prefix:
  "\<exists>zs. contentLines text = filterBoolean (headerRegionLines text) @ zs"
proof -
  have all: "contentLines text = filterBoolean (normLines text)"
    by (simp add: contentLines_def normLines_def)
  show ?thesis
  proof (cases "firstHeaderLine (headerLinesOf (normLines text)) (length (normLines text))")
    case None
    then show ?thesis
      by (simp add: headerRegionLines_def filterBoolean_def)
  next
    case (Some first)
    then have "headerRegionLines text = take first (normLines text)"
      by (simp add: headerRegionLines_def slice_def)
    with all show ?thesis
      using filter_take_prefix[of "\<lambda>s. s \<noteq> []" "normLines text" first]
      by (simp add: filterBoolean_def)
  qed
qed

text \<open>
  Claim C9. No extraction function fails: for every input string, the empty one too,
  section segmentation, the skills, experience, project and education extractors and the
  assembly of the record return a value (the header extractor and the list extractor
  have no operation that can fail). On the empty input the record has no name, headline
  or summary, a contact bundle of empty strings, and empty skills, experience, projects,
  education and certifications.
\<close>

theorem extraction_never_fails:
  "(\<exists>ps. parseSections text = Some ps)
   \<and> (\<exists>skills. extractSkills text = Some skills)
   \<and> (\<exists>items. extractExperience text = Some items)
   \<and> (\<exists>items. extractProjects text = Some items)
   \<and> (\<exists>items. extractEducation text = Some items)
   \<and> (\<exists>r. main text = Some r)
   \<and> extractHeader [] =
       \<lparr>h_name = None,
        h_contact = Some \<lparr>email = [], phone = [], website = [], linkedin = [], github = [],
                          c_location = []\<rparr>\<rparr>
   \<and> extractList [] = []
   \<and> main [] =
       Some \<lparr>r_name = None, r_headline = None,
             r_contact = Some \<lparr>email = [], phone = [], website = [], linkedin = [], github = [],
                               c_location = []\<rparr>,
             r_summary = None, r_skills = Some [], r_experience = Some [],
             r_projects = Some [], r_education = Some [], r_certifications = Some []\<rparr>"
proof -
  have "extractHeader [] =
       \<lparr>h_name = None,
        h_contact = Some \<lparr>email = [], phone = [], website = [], linkedin = [], github = [],
                          c_location = []\<rparr>\<rparr>"
    by code_simp
  moreover have "extractList [] = []"
    by code_simp
  moreover have "main [] =
       Some \<lparr>r_name = None, r_headline = None,
             r_contact = Some \<lparr>email = [], phone = [], website = [], linkedin = [], github = [],
                               c_location = []\<rparr>,
             r_summary = None, r_skills = Some [], r_experience = Some [],
             r_projects = Some [], r_education = Some [], r_certifications = Some []\<rparr>"
    by code_simp
  ultimately show ?thesis
    using parseSections_total extractSkills_total extractExperience_total
      extractProjects_total extractEducation_total main_total
    by blast
qed

text \<open>
  Claim C2, as amended. Only the name, the headline and the summary are ever absent: the
  name exactly when the text has no non-blank line, and neither name nor summary is ever
  the empty string. Every other field is always present: the contact is always a bundle
  of strings (each an empty string when no token matches, the location always), and
  skills, experience, projects, education and certifications are present even when they
  are empty.
\<close>

theorem record_fields_present:
  "\<exists>r. main text = Some r
     \<and> (r_name r = None \<longleftrightarrow> contentLines text = [])
     \<and> r_name r \<noteq> Some [] \<and> r_summary r \<noteq> Some [] \<and> r_headline r = None
     \<and> (\<exists>c. r_contact r = Some c \<and> c_location c = [])
     \<and> r_skills r \<noteq> None \<and> r_experience r \<noteq> None \<and> r_projects r \<noteq> None
     \<and> r_education r \<noteq> None \<and> r_certifications r \<noteq> None"
proof -
  obtain r where r: "main text = Some r"
    using main_total by blast
  note f = main_fields[OF r]
  have name: "r_name r = (case contentLines text of [] \<Rightarrow> None | l # _ \<Rightarrow> Some l)"
    by (simp add: f(1) name_of_contentLines)
  have "r_name r = None \<longleftrightarrow> contentLines text = []"
    by (simp add: name split: list.splits)
  moreover have "r_name r \<noteq> Some []"
    using contentLines_nonempty(1)[of _ "text"]
    by (auto simp: name split: list.splits)
  moreover have "r_summary r \<noteq> Some []"
    by (metis f(9) summaryOf_not_empty)
  moreover have "\<exists>c. r_contact r = Some c \<and> c_location c = []"
    by (simp add: f(2) extractHeader_def contactOf_def)
  ultimately show ?thesis
    using r f(3-8) by (intro exI[of _ r] conjI)
qed

theorem record_fields_present_witness:
  "main (str ''Jane Doe'' @ [10] @ str ''hello | world'')
     = Some \<lparr>r_name = Some (str ''Jane Doe''), r_headline = None,
             r_contact = Some \<lparr>email = [], phone = [], website = [], linkedin = [], github = [],
                               c_location = []\<rparr>,
             r_summary = None, r_skills = Some [], r_experience = Some [],
             r_projects = Some [], r_education = Some [], r_certifications = Some []\<rparr>
   \<and> contentLines (str ''Jane Doe'' @ [10] @ str ''hello | world'') \<noteq> []"
proof -
  let ?t = "str ''Jane Doe'' @ [10] @ str ''hello | world''"
  have m: "main ?t
     = Some \<lparr>r_name = Some (str ''Jane Doe''), r_headline = None,
             r_contact = Some \<lparr>email = [], phone = [], website = [], linkedin = [], github = [],
                               c_location = []\<rparr>,
             r_summary = None, r_skills = Some [], r_experience = Some [],
             r_projects = Some [], r_education = Some [], r_certifications = Some []\<rparr>"
    by code_simp
  from record_fields_present[of ?t] obtain r where
    r: "main ?t = Some r" and n: "r_name r = None \<longleftrightarrow> contentLines ?t = []"
    by (elim exE conjE)
  from r m have "Some r = Some \<lparr>r_name = Some (str ''Jane Doe''), r_headline = None,
             r_contact = Some \<lparr>email = [], phone = [], website = [], linkedin = [], github = [],
                               c_location = []\<rparr>,
             r_summary = None, r_skills = Some [], r_experience = Some [],
             r_projects = Some [], r_education = Some [], r_certifications = Some []\<rparr>"
    by (rule trans[OF sym])
  then have "r_name r = Some (str ''Jane Doe'')"
    by (simp only: option.inject resume.select_convs)
  with n have "contentLines ?t \<noteq> []"
    by simp
  with m show ?thesis by (intro conjI)
qed

text \<open>
  Claim C2 as stated fails: on a document whose contact line has no matching token the
  contact field is a bundle of empty strings, not absent, and the skills field is an empty
  mapping, not absent.
\<close>

theorem unpopulated_fields_defaulted:
  "map_option r_contact (main (str ''Jane Doe'' @ [10] @ str ''hello | world''))
     = Some (Some \<lparr>email = [], phone = [], website = [], linkedin = [], github = [],
                   c_location = []\<rparr>)
   \<and> map_option r_skills (main (str ''Jane Doe'' @ [10] @ str ''hello | world'')) = Some (Some [])"
  by code_simp

text \<open>
  Claim C5, as amended. The name is the first non-blank line of the whole text, trimmed,
  and is absent when the text has no non-blank line; the contact bundle is parsed from the
  second non-blank line of the whole text (from the empty line when there is none). When
  the header region has a first, or a first and a second, non-blank line, these are the
  lines used.
\<close>

theorem name_and_contact_from_first_lines:
  "\<exists>r. main text = Some r
     \<and> r_name r = (case contentLines text of [] \<Rightarrow> None | l # _ \<Rightarrow> Some l)
     \<and> r_contact r =
         Some (contactOf (contactParts (case contentLines text of _ # l # _ \<Rightarrow> l | _ \<Rightarrow> [])))
     \<and> (\<forall>l ls. filterBoolean (headerRegionLines text) = l # ls \<longrightarrow> r_name r = Some l)
     \<and> (\<forall>l1 l2 ls. filterBoolean (headerRegionLines text) = l1 # l2 # ls
          \<longrightarrow> r_contact r = Some (contactOf (contactParts l2)))"
proof -
  obtain r where r: "main text = Some r"
    using main_total by blast
  note f = main_fields[OF r]
  have name: "r_name r = (case contentLines text of [] \<Rightarrow> None | l # _ \<Rightarrow> Some l)"
    by (simp add: f(1) name_of_contentLines)
  have contact: "r_contact r =
      Some (contactOf (contactParts (case contentLines text of _ # l # _ \<Rightarrow> l | _ \<Rightarrow> [])))"
    by (simp add: f(2) contact_of_contentLines)
  obtain zs where zs: "contentLines text = filterBoolean (headerRegionLines text) @ zs"
    using headerRegion_prefix by blast
  have "\<forall>l ls. filterBoolean (headerRegionLines text) = l # ls \<longrightarrow> r_name r = Some l"
    by (simp add: name zs)
  moreover have "\<forall>l1 l2 ls. filterBoolean (headerRegionLines text) = l1 # l2 # ls
          \<longrightarrow> r_contact r = Some (contactOf (contactParts l2))"
    by (simp add: contact zs)
  ultimately show ?thesis
    using r name contact by blast
qed

theorem name_and_contact_from_first_lines_witness:
  "filterBoolean (headerRegionLines
       (str ''Jane Doe'' @ [10] @ str ''Jane@x.com | 555-123-4567 | linkedin.com/in/jane''
        @ [10] @ str ''Skills''))
     = [str ''Jane Doe'', str ''Jane@x.com | 555-123-4567 | linkedin.com/in/jane'']
   \<and> map_option r_name (main
       (str ''Jane Doe'' @ [10] @ str ''Jane@x.com | 555-123-4567 | linkedin.com/in/jane''
        @ [10] @ str ''Skills''))
     = Some (Some (str ''Jane Doe''))
   \<and> map_option r_contact (main
       (str ''Jane Doe'' @ [10] @ str ''Jane@x.com | 555-123-4567 | linkedin.com/in/jane''
        @ [10] @ str ''Skills''))
     = Some (Some \<lparr>email = str ''Jane@x.com'', phone = str ''555-123-4567'', website = [],
                   linkedin = str ''linkedin.com/in/jane'', github = [], c_location = []\<rparr>)"
proof -
  let ?t = "str ''Jane Doe'' @ [10] @ str ''Jane@x.com | 555-123-4567 | linkedin.com/in/jane''
        @ [10] @ str ''Skills''"
  let ?l2 = "str ''Jane@x.com | 555-123-4567 | linkedin.com/in/jane''"
  have h: "filterBoolean (headerRegionLines ?t) = [str ''Jane Doe'', ?l2]"
    by code_simp
  have c: "contactOf (contactParts ?l2)
      = \<lparr>email = str ''Jane@x.com'', phone = str ''555-123-4567'', website = [],
         linkedin = str ''linkedin.com/in/jane'', github = [], c_location = []\<rparr>"
    by code_simp
  from name_and_contact_from_first_lines[of ?t] obtain r where r: "main ?t = Some r"
    and n: "\<forall>l ls. filterBoolean (headerRegionLines ?t) = l # ls \<longrightarrow> r_name r = Some l"
    and k: "\<forall>l1 l2 ls. filterBoolean (headerRegionLines ?t) = l1 # l2 # ls
          \<longrightarrow> r_contact r = Some (contactOf (contactParts l2))"
    by blast
  from n h have "r_name r = Some (str ''Jane Doe'')"
    by blast
  moreover from k h have "r_contact r = Some (contactOf (contactParts ?l2))"
    by blast
  ultimately have "map_option r_name (main ?t) = Some (Some (str ''Jane Doe''))"
    and "map_option r_contact (main ?t) = Some (Some (contactOf (contactParts ?l2)))"
    using r by simp_all
  with h show ?thesis
    unfolding c by (intro conjI)
qed

text \<open>
  Claim C5 as stated fails: in a text that begins with a section label the header region
  has no non-blank line, and the name is that label.
\<close>

theorem name_outside_header_region:
  "filterBoolean (headerRegionLines (str ''Summary'' @ [10] @ str ''Builds things'')) = []
   \<and> map_option r_name (main (str ''Summary'' @ [10] @ str ''Builds things''))
     = Some (Some (str ''Summary''))"
  by code_simp

section \<open>Section segmentation\<close>

lemma headerLabels_distinct: "distinct (map fst headerLabels)"
  by (simp add: headerLabels_def)

lemma labelKeys_eq:
  "labelKeys = [Summary, Education, Experience, Skills, Projects, Certifications]"
  by (simp add: labelKeys_def headerLabels_def)

lemma scanLabels_result:
  "distinct (map fst hs) \<Longrightarrow>
   scanLabels hs i line (hl, seen) =
     (hl @ map (\<lambda>k. (k, i)) (map fst (filter (\<lambda>(k, label). k \<notin> set seen \<and> test (anchored label) line) hs)),
      seen @ map fst (filter (\<lambda>(k, label). k \<notin> set seen \<and> test (anchored label) line) hs))"
proof (induction hs arbitrary: hl seen)
  case Nil
  show ?case by simp
next
  case (Cons h hs)
  obtain k label where h: "h = (k, label)" by (cases h)
  from Cons.prems h have fresh: "k \<notin> fst ` set hs" and d: "distinct (map fst hs)"
    by auto
  have same: "filter (\<lambda>(k', label). k' \<notin> set (seen @ [k]) \<and> test (anchored label) line) hs
      = filter (\<lambda>(k', label). k' \<notin> set seen \<and> test (anchored label) line) hs"
    using fresh by (intro filter_cong) (auto simp: image_iff)
  show ?case
  proof (cases "k \<in> set seen")
    case True
    with Cons.IH[OF d, of hl seen] h show ?thesis by simp
  next
    case False
    show ?thesis
    proof (cases "test (anchored label) line")
      case True
      with False Cons.IH[OF d, of "hl @ [(k, i)]" "seen @ [k]"] h same show ?thesis by simp
    next
      case nt: False
      with False Cons.IH[OF d, of hl seen] h show ?thesis by simp
    qed
  qed
qed

lemma headerLabels_filter:
  "map fst (filter (\<lambda>(k, label). k \<notin> set seen \<and> test (anchored label) line) headerLabels)
     = filter (\<lambda>k. k \<notin> set seen \<and> isLabel k line) labelKeys"
proof -
  have "test (anchored label) line \<longleftrightarrow> isLabel k line" if "(k, label) \<in> set headerLabels" for k label
    using that headerLabels_distinct by (simp add: isLabel_def)
  then have "filter (\<lambda>(k, label). k \<notin> set seen \<and> test (anchored label) line) headerLabels
      = filter (\<lambda>h. fst h \<notin> set seen \<and> isLabel (fst h) line) headerLabels"
    by (intro filter_cong) auto
  then show ?thesis
    by (simp add: labelKeys_def filter_map comp_def)
qed

lemma scanLabels_headerLabels:
  "scanLabels headerLabels i line (hl, seen) =
     (hl @ map (\<lambda>k. (k, i)) (filter (\<lambda>k. k \<notin> set seen \<and> isLabel k line) labelKeys),
      seen @ filter (\<lambda>k. k \<notin> set seen \<and> isLabel k line) labelKeys)"
  by (simp add: scanLabels_result[OF headerLabels_distinct] headerLabels_filter)

lemma scanInv_step:
  assumes inv: "scanInv lines i st"
  shows "scanInv lines (Suc i) (scanLabels headerLabels i (lines ! i) st)"
proof -
  obtain hl seen where st: "st = (hl, seen)" by (cases st)
  let ?ks = "filter (\<lambda>k. k \<notin> set seen \<and> isLabel k (lines ! i)) labelKeys"
  have res: "scanLabels headerLabels i (lines ! i) st = (hl @ map (\<lambda>k. (k, i)) ?ks, seen @ ?ks)"
    by (simp add: st scanLabels_headerLabels)
  from inv have "seen = map fst hl \<and> distinct seen \<and> set seen \<subseteq> set labelKeys
     \<and> sorted (map snd hl)
     \<and> (\<forall>(k, j) \<in> set hl.
           j < i \<and> isLabel k (lines ! j) \<and> (\<forall>j' < j. \<not> isLabel k (lines ! j')))
     \<and> (\<forall>k \<in> set labelKeys. k \<notin> set seen \<longrightarrow> (\<forall>j < i. \<not> isLabel k (lines ! j)))"
    unfolding scanInv_def st fst_conv snd_conv .
  then have seen: "seen = map fst hl" and dist: "distinct seen"
    and sub: "set seen \<subseteq> set labelKeys" and sorted: "sorted (map snd hl)"
    and old: "\<forall>(k, j) \<in> set hl. j < i \<and> isLabel k (lines ! j) \<and> (\<forall>j' < j. \<not> isLabel k (lines ! j'))"
    and unseen: "\<forall>k \<in> set labelKeys. k \<notin> set seen \<longrightarrow> (\<forall>j < i. \<not> isLabel k (lines ! j))"
    by blast+
  have dl: "distinct labelKeys" by (simp add: labelKeys_eq)
  have 1: "seen @ ?ks = map fst (hl @ map (\<lambda>k. (k, i)) ?ks)"
    by (simp add: seen comp_def)
  have 2: "distinct (seen @ ?ks)"
    using dist dl by auto
  have 3: "set (seen @ ?ks) \<subseteq> set labelKeys"
    using sub by auto
  have const: "sorted (map (\<lambda>k. i) ks)" for ks :: "skey list"
    by (induction ks) auto
  have below: "\<forall>j \<in> set (map snd hl). j \<le> i"
    using old by (fastforce simp: less_imp_le)
  have 4: "sorted (map snd (hl @ map (\<lambda>k. (k, i)) ?ks))"
    using sorted below const[of ?ks] by (simp add: sorted_append comp_def)
  have 5: "\<forall>(k, j) \<in> set (hl @ map (\<lambda>k. (k, i)) ?ks).
      j < Suc i \<and> isLabel k (lines ! j) \<and> (\<forall>j' < j. \<not> isLabel k (lines ! j'))"
    using old unseen by (auto simp: less_Suc_eq)
  have 6: "\<forall>k \<in> set labelKeys. k \<notin> set (seen @ ?ks) \<longrightarrow> (\<forall>j < Suc i. \<not> isLabel k (lines ! j))"
    using unseen by (auto simp: less_Suc_eq)
  from 1 2 3 4 5 6 show ?thesis
    unfolding res scanInv_def fst_conv snd_conv by (intro conjI)
qed

lemma scanInv_scanLines:
  "scanInv lines i st \<Longrightarrow> lines = pre @ ls \<Longrightarrow> length pre = i
     \<Longrightarrow> scanInv lines (length lines) (scanLines i ls st)"
proof (induction ls arbitrary: i st pre)
  case Nil
  then show ?case by simp
next
  case (Cons line ls)
  from Cons.prems have "lines ! i = line" by auto
  with scanInv_step[OF Cons.prems(1)]
  have "scanInv lines (Suc i) (scanLabels headerLabels i line st)" by simp
  from Cons.IH[OF this, of "pre @ [line]"] Cons.prems show ?case by simp
qed

lemma scanInv_final: "scanInv lines (length lines) (scanLines 0 lines ([], []))"
  by (rule scanInv_scanLines[of lines 0 _ "[]"]) (simp_all add: scanInv_def)


lemma headerLinesOf_scan: "headerLinesOf lines = fst (scanLines 0 lines ([], []))"
  using scanInv_final[of lines]
  by (simp add: headerLinesOf_def scanInv_def sort_key_id_if_sorted)

lemma headerLinesOf_props:
  shows headerLinesOf_distinct: "distinct (map fst (headerLinesOf lines))"
    and headerLinesOf_sorted: "sorted (map snd (headerLinesOf lines))"
    and headerLinesOf_keys: "set (map fst (headerLinesOf lines)) \<subseteq> set labelKeys"
    and headerLinesOf_first:
      "\<forall>(k, i) \<in> set (headerLinesOf lines).
         i < length lines \<and> isLabel k (lines ! i) \<and> (\<forall>j < i. \<not> isLabel k (lines ! j))"
    and headerLinesOf_complete:
      "\<forall>k \<in> set labelKeys. k \<notin> set (map fst (headerLinesOf lines))
         \<longrightarrow> (\<forall>j < length lines. \<not> isLabel k (lines ! j))"
proof -
  let ?st = "scanLines 0 lines ([], [])"
  from scanInv_final[of lines]
  have "snd ?st = map fst (fst ?st) \<and> distinct (snd ?st) \<and> set (snd ?st) \<subseteq> set labelKeys
     \<and> sorted (map snd (fst ?st))
     \<and> (\<forall>(k, j) \<in> set (fst ?st).
           j < length lines \<and> isLabel k (lines ! j) \<and> (\<forall>j' < j. \<not> isLabel k (lines ! j')))
     \<and> (\<forall>k \<in> set labelKeys. k \<notin> set (snd ?st)
           \<longrightarrow> (\<forall>j < length lines. \<not> isLabel k (lines ! j)))"
    unfolding scanInv_def .
  then have eq: "snd ?st = map fst (fst ?st)" and d: "distinct (snd ?st)"
    and sub: "set (snd ?st) \<subseteq> set labelKeys" and so: "sorted (map snd (fst ?st))"
    and fi: "\<forall>(k, j) \<in> set (fst ?st).
           j < length lines \<and> isLabel k (lines ! j) \<and> (\<forall>j' < j. \<not> isLabel k (lines ! j'))"
    and co: "\<forall>k \<in> set labelKeys. k \<notin> set (snd ?st)
           \<longrightarrow> (\<forall>j < length lines. \<not> isLabel k (lines ! j))"
    by blast+
  from d show "distinct (map fst (headerLinesOf lines))"
    unfolding headerLinesOf_scan eq .
  from so show "sorted (map snd (headerLinesOf lines))"
    unfolding headerLinesOf_scan .
  from sub show "set (map fst (headerLinesOf lines)) \<subseteq> set labelKeys"
    unfolding headerLinesOf_scan eq .
  from fi show "\<forall>(k, i) \<in> set (headerLinesOf lines).
         i < length lines \<and> isLabel k (lines ! i) \<and> (\<forall>j < i. \<not> isLabel k (lines ! j))"
    unfolding headerLinesOf_scan .
  from co show "\<forall>k \<in> set labelKeys. k \<notin> set (map fst (headerLinesOf lines))
         \<longrightarrow> (\<forall>j < length lines. \<not> isLabel k (lines ! j))"
    unfolding headerLinesOf_scan eq .
qed

text \<open>The region that the \<open>i\<close>-th iteration of the loop over \<open>headerLines\<close> cuts.\<close>

lemma regionsOf_eq:
  "regionsOf lines =
     (Header, 0, if headerLinesOf lines = [] then length lines else snd (headerLinesOf lines ! 0))
     # map (\<lambda>i. (fst (headerLinesOf lines ! i), snd (headerLinesOf lines ! i) + 1,
                  if i + 1 < length (headerLinesOf lines)
                  then snd (headerLinesOf lines ! (i + 1)) else length lines))
         [0..<length (headerLinesOf lines)]"
proof -
  let ?hl = "headerLinesOf lines"
  have first: "firstHeaderLine ?hl (length lines)
      = Some (if ?hl = [] then length lines else snd (?hl ! 0))"
    by (simp add: firstHeaderLine_def nth_opt_def)
  have "map (\<lambda>i. case regionOf ?hl (length lines) i of None \<Rightarrow> [] | Some r \<Rightarrow> [r]) [0..<length ?hl]
      = map (\<lambda>i. [(fst (?hl ! i), snd (?hl ! i) + 1,
                  if i + 1 < length ?hl then snd (?hl ! (i + 1)) else length lines)])
          [0..<length ?hl]"
    by (rule map_cong) (simp_all add: regionOf_Some)
  then have "concat (map (\<lambda>i. case regionOf ?hl (length lines) i of None \<Rightarrow> [] | Some r \<Rightarrow> [r])
        [0..<length ?hl])
      = map (\<lambda>i. (fst (?hl ! i), snd (?hl ! i) + 1,
                  if i + 1 < length ?hl then snd (?hl ! (i + 1)) else length lines))
          [0..<length ?hl]"
    by (simp only: concat_map_singleton)
  with first show ?thesis
    by (simp add: regionsOf_def Let_def)
qed

lemma regions_disjoint:
  assumes "a < b" and "b < length (regionsOf lines)"
  shows "span (regionsOf lines ! a) \<inter> span (regionsOf lines ! b) = {}"
proof -
  let ?hl = "headerLinesOf lines"
  let ?n = "length lines"
  from assms obtain j where b: "b = Suc j" and j: "j < length ?hl"
    by (cases b) (auto simp: regionsOf_eq)
  have sorted: "sorted (map snd ?hl)" by (rule headerLinesOf_sorted)
  have mono: "snd (?hl ! x) \<le> snd (?hl ! y)" if "x \<le> y" "y < length ?hl" for x y
    using sorted_nth_mono[OF sorted, of x y] that by simp
  have rb: "regionsOf lines ! b =
      (fst (?hl ! j), snd (?hl ! j) + 1, if j + 1 < length ?hl then snd (?hl ! (j + 1)) else ?n)"
    using j by (simp add: regionsOf_eq b del: upt_Suc)
  show ?thesis
  proof (cases a)
    case 0
    from j have "regionsOf lines ! a = (Header, 0, snd (?hl ! 0))"
      using 0 by (auto simp: regionsOf_eq)
    moreover have "snd (?hl ! 0) \<le> snd (?hl ! j)"
      using mono[of 0 j] j by simp
    ultimately show ?thesis
      using rb by (auto simp: span_def)
  next
    case (Suc i)
    with assms b have i: "i < j" by simp
    with j have ra: "regionsOf lines ! a = (fst (?hl ! i), snd (?hl ! i) + 1, snd (?hl ! (i + 1)))"
      using Suc by (simp add: regionsOf_eq del: upt_Suc)
    have "snd (?hl ! (i + 1)) \<le> snd (?hl ! j)"
      using mono[of "i + 1" j] i j by simp
    with ra rb show ?thesis
      by (auto simp: span_def)
  qed
qed

lemma update_fresh: "k \<notin> fst ` set al \<Longrightarrow> AList.update k v al = al @ [(k, v)]"
  by (induction al) auto

lemma sectionLoop_result:
  "\<forall>i \<in> set is. i < length hl \<Longrightarrow> distinct (map (\<lambda>i. fst (hl ! i)) is)
   \<Longrightarrow> \<forall>i \<in> set is. fst (hl ! i) \<notin> fst ` set acc
   \<Longrightarrow> sectionLoop lines hl is acc =
         Some (acc @ map (\<lambda>i. (fst (hl ! i),
                              regionText lines (snd (hl ! i) + 1)
                                (if i + 1 < length hl then snd (hl ! (i + 1)) else length lines)))
                       is)"
proof (induction "is" arbitrary: acc)
  case Nil
  show ?case by simp
next
  case (Cons i "is")
  let ?v = "regionText lines (snd (hl ! i) + 1)
              (if i + 1 < length hl then snd (hl ! (i + 1)) else length lines)"
  from Cons.prems have i: "i < length hl" and fresh: "fst (hl ! i) \<notin> fst ` set acc"
    by simp_all
  have step: "AList.update (fst (hl ! i)) ?v acc = acc @ [(fst (hl ! i), ?v)]"
    using fresh by (rule update_fresh)
  have other: "fst (hl ! i') \<noteq> fst (hl ! i)" if "i' \<in> set is" for i'
  proof
    assume e: "fst (hl ! i') = fst (hl ! i)"
    from that have "fst (hl ! i') \<in> (\<lambda>i. fst (hl ! i)) ` set is" by (rule imageI)
    with e Cons.prems(2) show False by simp
  qed
  have "sectionLoop lines hl is (acc @ [(fst (hl ! i), ?v)]) =
      Some ((acc @ [(fst (hl ! i), ?v)]) @ map (\<lambda>i. (fst (hl ! i),
                              regionText lines (snd (hl ! i) + 1)
                                (if i + 1 < length hl then snd (hl ! (i + 1)) else length lines)))
                       is)"
  proof (rule Cons.IH)
    show "\<forall>i \<in> set is. i < length hl" using Cons.prems(1) by simp
    show "distinct (map (\<lambda>i. fst (hl ! i)) is)" using Cons.prems(2) by simp
    show "\<forall>i' \<in> set is. fst (hl ! i') \<notin> fst ` set (acc @ [(fst (hl ! i), ?v)])"
      using Cons.prems(3) other by simp
  qed
  with regionOf_Some[OF i, of "length lines"] step show ?case
    by simp
qed

lemma parseSections_sections:
  "parseSections text =
     Some \<lparr>ps_lines = filter (\<lambda>l. length l > 0) (normLines text),
           ps_content = join [10] (normLines text),
           ps_sections = map (\<lambda>(k, s, e). (k, regionText (normLines text) s e))
                           (regionsOf (normLines text))\<rparr>"
proof -
  let ?lines = "normLines text"
  let ?hl = "headerLinesOf ?lines"
  let ?first = "if ?hl = [] then length ?lines else snd (?hl ! 0)"
  have first: "firstHeaderLine ?hl (length ?lines) = Some ?first"
    by (simp add: firstHeaderLine_def nth_opt_def)
  have keys: "map (\<lambda>i. fst (?hl ! i)) [0..<length ?hl] = map fst ?hl"
    by (rule nth_equalityI) simp_all
  have "Header \<notin> set labelKeys" by (simp add: labelKeys_eq)
  with headerLinesOf_keys[of ?lines] have noHeader: "Header \<notin> set (map fst ?hl)"
    by blast
  have "sectionLoop ?lines ?hl [0..<length ?hl] [(Header, regionText ?lines 0 ?first)] =
      Some ([(Header, regionText ?lines 0 ?first)]
            @ map (\<lambda>i. (fst (?hl ! i),
                        regionText ?lines (snd (?hl ! i) + 1)
                          (if i + 1 < length ?hl then snd (?hl ! (i + 1)) else length ?lines)))
                [0..<length ?hl])"
  proof (rule sectionLoop_result)
    show "\<forall>i \<in> set [0..<length ?hl]. i < length ?hl" by simp
    show "distinct (map (\<lambda>i. fst (?hl ! i)) [0..<length ?hl])"
      unfolding keys by (rule headerLinesOf_distinct)
    show "\<forall>i \<in> set [0..<length ?hl].
        fst (?hl ! i) \<notin> fst ` set [(Header, regionText ?lines 0 ?first)]"
    proof (intro ballI)
      fix i assume "i \<in> set [0..<length ?hl]"
      then have "?hl ! i \<in> set ?hl" by simp
      then have "fst (?hl ! i) \<in> set (map fst ?hl)" by simp
      with noHeader have "fst (?hl ! i) \<noteq> Header" by metis
      then show "fst (?hl ! i) \<notin> fst ` set [(Header, regionText ?lines 0 ?first)]"
        by simp
    qed
  qed
  with first show ?thesis
    by (simp add: parseSections_def Let_def regionsOf_eq comp_def)
qed

subsection \<open>The labels are whole lines, ignoring case\<close>

lemma matches_liti_eq:
  "matches (liti w) (b, cs, g) =
     (if length w \<le> length cs
         \<and> map canonicalize (take (length w) cs) = map canonicalize (str w)
      then [(rev (take (length w) cs) @ b, drop (length w) cs, g)] else [])"
proof (induction w arbitrary: b cs)
  case Nil
  show ?case by (simp add: liti_def seqs_def str_def)
next
  case (Cons a w)
  have unfold: "liti (a # w) = seqs (Atom (\<lambda>x. canonicalize x = canonicalize (of_char a)) # map chri w)"
    by (simp add: liti_def chri_def)
  show ?case
  proof (cases cs)
    case Nil
    then show ?thesis by (simp add: unfold matches_seqs_Atom)
  next
    case (Cons c cs')
    then show ?thesis
      using Cons.IH[of "c # b" cs']
      by (simp add: unfold matches_seqs_Atom liti_def[symmetric] str_def)
  qed
qed

lemma ends_liti: "ends (liti w) (b, cs, g) \<longleftrightarrow> equalsCI w cs"
proof -
  have len: "length (map canonicalize (str w)) = length w"
    by (simp add: str_def)
  have "length w \<le> length cs \<and> map canonicalize (take (length w) cs) = map canonicalize (str w)
      \<and> drop (length w) cs = [] \<longleftrightarrow> map canonicalize cs = map canonicalize (str w)"
  proof
    assume a: "length w \<le> length cs
      \<and> map canonicalize (take (length w) cs) = map canonicalize (str w)
      \<and> drop (length w) cs = []"
    then have "take (length w) cs = cs" by simp
    with a show "map canonicalize cs = map canonicalize (str w)" by simp
  next
    assume e: "map canonicalize cs = map canonicalize (str w)"
    then have "length cs = length w"
      using len by (metis length_map)
    with e show "length w \<le> length cs
      \<and> map canonicalize (take (length w) cs) = map canonicalize (str w)
      \<and> drop (length w) cs = []"
      by simp
  qed
  then show ?thesis
    by (simp add: ends_def matches_liti_eq equalsCI_def)
qed

lemma ends_Alt: "ends (Alt r1 r2) st \<longleftrightarrow> ends r1 st \<or> ends r2 st"
  by (auto simp: ends_def)

lemma ends_Seq: "ends (Seq r1 r2) st \<longleftrightarrow> (\<exists>mid \<in> set (matches r1 st). ends r2 mid)"
  by (auto simp: ends_def)

lemma concat_map_nonempty: "concat (map f xs) \<noteq> [] \<longleftrightarrow> (\<exists>x \<in> set xs. f x \<noteq> [])"
  by (induction xs) auto

lemma matches_Eol_nonempty: "matches (Seq r Eol) st \<noteq> [] \<longleftrightarrow> ends r st"
proof -
  have "matches (Seq r Eol) st \<noteq> [] \<longleftrightarrow> (\<exists>st' \<in> set (matches r st). matches Eol st' \<noteq> [])"
    by (simp only: matches.simps concat_map_nonempty)
  then show ?thesis
    by (simp add: ends_def)
qed

lemma matches_anchored_nonempty:
  "matches (anchored r) (b, cs, []) \<noteq> [] \<longleftrightarrow> b = [] \<and> ends r ([], cs, [])"
proof (cases "b = []")
  case True
  have "matches (anchored r) ([], cs, []) = matches (Seq r Eol) ([], cs, [])"
    by (simp add: anchored_def)
  with True show ?thesis
    by (simp only: matches_Eol_nonempty) simp
next
  case False
  then show ?thesis by (simp add: anchored_def)
qed

lemma test_anchored: "test (anchored r) s \<longleftrightarrow> ends r ([], s, [])"
proof -
  have "(\<exists>i \<le> length s. rev (take i s) = [] \<and> ends r ([], drop i s, [])) \<longleftrightarrow> ends r ([], s, [])"
  proof
    assume "\<exists>i \<le> length s. rev (take i s) = [] \<and> ends r ([], drop i s, [])"
    then obtain i where "take i s = []" and e: "ends r ([], drop i s, [])" by auto
    then have "drop i s = s" by (cases s) auto
    with e show "ends r ([], s, [])" by simp
  next
    assume "ends r ([], s, [])"
    then have "0 \<le> length s \<and> rev (take 0 s) = [] \<and> ends r ([], drop 0 s, [])" by simp
    then show "\<exists>i \<le> length s. rev (take i s) = [] \<and> ends r ([], drop i s, [])" by blast
  qed
  then show ?thesis
    by (simp only: test_iff matches_anchored_nonempty)
qed


lemma iter_Atom_set:
  "length cs \<le> n \<Longrightarrow>
   set (iter n (matches (Atom p)) (b, cs, g)) =
     {(rev (take k cs) @ b, drop k cs, g) | k. k \<le> length (takeWhile p cs)}"
proof (induction cs arbitrary: b n)
  case Nil
  then show ?case by (cases n) auto
next
  case (Cons c cs)
  then obtain m where n: "n = Suc m" and m: "length cs \<le> m"
    by (cases n) auto
  have step: "iter (Suc m) (matches (Atom p)) (b, c # cs, g) =
      (if p c then iter m (matches (Atom p)) (c # b, cs, g) else []) @ [(b, c # cs, g)]"
    by (simp add: progress_def)
  show ?case
  proof (cases "p c")
    case False
    then show ?thesis by (auto simp: n step)
  next
    case True
    have "{(rev (take k (c # cs)) @ b, drop k (c # cs), g) | k. k \<le> Suc (length (takeWhile p cs))}
        = insert (b, c # cs, g)
            {(rev (take j cs) @ c # b, drop j cs, g) | j. j \<le> length (takeWhile p cs)}"
      (is "?L = ?R")
    proof (intro set_eqI iffI)
      fix x assume "x \<in> ?L"
      then obtain k where k: "k \<le> Suc (length (takeWhile p cs))"
        and x: "x = (rev (take k (c # cs)) @ b, drop k (c # cs), g)"
        by blast
      show "x \<in> ?R"
      proof (cases k)
        case 0
        with x show ?thesis by simp
      next
        case (Suc j)
        with k x show ?thesis by auto
      qed
    next
      fix x assume "x \<in> ?R"
      then consider "x = (b, c # cs, g)"
        | j where "j \<le> length (takeWhile p cs)" "x = (rev (take j cs) @ c # b, drop j cs, g)"
        by blast
      then show "x \<in> ?L"
      proof cases
        case 1
        then have "x = (rev (take 0 (c # cs)) @ b, drop 0 (c # cs), g)" by simp
        then show ?thesis by blast
      next
        case 2
        then have "Suc j \<le> Suc (length (takeWhile p cs))
          \<and> x = (rev (take (Suc j) (c # cs)) @ b, drop (Suc j) (c # cs), g)"
          by simp
        then show ?thesis by blast
      qed
    qed
    moreover from True have "iter (Suc m) (matches (Atom p)) (b, c # cs, g) =
        iter m (matches (Atom p)) (c # b, cs, g) @ [(b, c # cs, g)]"
      by (simp only: step if_True)
    then have "set (iter (Suc m) (matches (Atom p)) (b, c # cs, g)) =
        insert (b, c # cs, g) (set (iter m (matches (Atom p)) (c # b, cs, g)))"
      by (simp only: set_append list.set Un_insert_right Un_empty_right)
    moreover from True have "length (takeWhile p (c # cs)) = Suc (length (takeWhile p cs))"
      by simp
    ultimately show ?thesis
      unfolding n using Cons.IH[OF m, of "c # b"] by (simp only:)
  qed
qed

lemma matches_oneOrMore_set:
  "set (matches (oneOrMore (Atom p)) (b, cs, g)) =
     {(rev (take k cs) @ b, drop k cs, g) | k. 1 \<le> k \<and> k \<le> length (takeWhile p cs)}"
proof (cases cs)
  case Nil
  then show ?thesis by (auto simp: oneOrMore_def)
next
  case (Cons c cs')
  show ?thesis
  proof (cases "p c")
    case False
    with Cons show ?thesis by (auto simp: oneOrMore_def)
  next
    case True
    have "{(rev (take j cs') @ c # b, drop j cs', g) | j. j \<le> length (takeWhile p cs')}
        = {(rev (take k (c # cs')) @ b, drop k (c # cs'), g) | k.
             1 \<le> k \<and> k \<le> Suc (length (takeWhile p cs'))}"
      (is "?L = ?R")
    proof (intro set_eqI iffI)
      fix x assume "x \<in> ?L"
      then obtain j where "j \<le> length (takeWhile p cs')"
        and "x = (rev (take j cs') @ c # b, drop j cs', g)"
        by blast
      then have "1 \<le> Suc j \<and> Suc j \<le> Suc (length (takeWhile p cs'))
        \<and> x = (rev (take (Suc j) (c # cs')) @ b, drop (Suc j) (c # cs'), g)"
        by simp
      then show "x \<in> ?R" by blast
    next
      fix x assume "x \<in> ?R"
      then obtain k where k: "1 \<le> k" "k \<le> Suc (length (takeWhile p cs'))"
        and x: "x = (rev (take k (c # cs')) @ b, drop k (c # cs'), g)"
        by blast
      from k(1) obtain j where "k = Suc j" by (cases k) auto
      with k x have "j \<le> length (takeWhile p cs') \<and> x = (rev (take j cs') @ c # b, drop j cs', g)"
        by simp
      then show "x \<in> ?L" by blast
    qed
    with True Cons iter_Atom_set[of cs' "length cs'" p "c # b" g] show ?thesis
      by (simp add: oneOrMore_def)
  qed
qed

lemma take_takeWhile_all: "k \<le> length (takeWhile p cs) \<Longrightarrow> \<forall>c \<in> set (take k cs). p c"
proof -
  assume "k \<le> length (takeWhile p cs)"
  then have "take k cs = take k (takeWhile p cs)"
    by (metis append_take_drop_id takeWhile_dropWhile_id take_append diff_is_0_eq take_0 append_Nil2)
  then show ?thesis
    by (metis in_set_takeD set_takeWhileD)
qed

lemma ends_two_words:
  "ends (Seq (liti w1) (Seq (oneOrMore spaceC) (liti w2))) ([], s, []) \<longleftrightarrow> wordsCI w1 w2 s"
proof
  assume "ends (Seq (liti w1) (Seq (oneOrMore spaceC) (liti w2))) ([], s, [])"
  then obtain mid where mid: "mid \<in> set (matches (liti w1) ([], s, []))"
    and rest: "ends (Seq (oneOrMore spaceC) (liti w2)) mid"
    unfolding ends_Seq by blast
  from mid have pre: "length w1 \<le> length s"
    "map canonicalize (take (length w1) s) = map canonicalize (str w1)"
    and mid_eq: "mid = (rev (take (length w1) s), drop (length w1) s, [])"
    by (auto simp: matches_liti_eq split: if_splits)
  from rest obtain k where k: "1 \<le> k" "k \<le> length (takeWhile isWhiteSpace (drop (length w1) s))"
    and e: "ends (liti w2) (rev (take k (drop (length w1) s)) @ rev (take (length w1) s),
                    drop k (drop (length w1) s), [])"
    unfolding ends_Seq mid_eq spaceC_def matches_oneOrMore_set by blast
  let ?p = "take (length w1) s"
  let ?ws = "take k (drop (length w1) s)"
  let ?e = "drop k (drop (length w1) s)"
  have "s = ?p @ ?ws @ ?e" by (simp only: append_take_drop_id)
  moreover have "equalsCI w1 ?p" using pre(2) by (simp add: equalsCI_def)
  moreover have "?ws \<noteq> []" using k by auto
  moreover have "\<forall>c \<in> set ?ws. isWhiteSpace c" using k(2) by (rule take_takeWhile_all)
  moreover have "equalsCI w2 ?e" using e by (simp only: ends_liti)
  ultimately show "wordsCI w1 w2 s"
    unfolding wordsCI_def by blast
next
  assume "wordsCI w1 w2 s"
  then obtain p ws e where s: "s = p @ ws @ e" and p: "equalsCI w1 p" and ws: "ws \<noteq> []"
    and white: "\<forall>c \<in> set ws. isWhiteSpace c" and e: "equalsCI w2 e"
    unfolding wordsCI_def by blast
  from p have lp: "length p = length w1"
    by (metis equalsCI_def length_map str_def)
  have first: "matches (liti w1) ([], s, []) = [(rev p, ws @ e, [])]"
    using p lp by (simp add: matches_liti_eq s equalsCI_def)
  have "length ws \<le> length (takeWhile isWhiteSpace (ws @ e))"
    using white by (simp add: takeWhile_append2)
  with ws have "(rev (take (length ws) (ws @ e)) @ rev p, drop (length ws) (ws @ e), [])
      \<in> set (matches (oneOrMore spaceC) (rev p, ws @ e, []))"
    unfolding spaceC_def matches_oneOrMore_set
    by (intro CollectI exI[of _ "length ws"]) (simp add: Suc_le_eq)
  moreover have "ends (liti w2) (rev (take (length ws) (ws @ e)) @ rev p, drop (length ws) (ws @ e), [])"
    using e by (simp only: ends_liti) simp
  ultimately have "ends (Seq (oneOrMore spaceC) (liti w2)) (rev p, ws @ e, [])"
    unfolding ends_Seq by blast
  with first show "ends (Seq (liti w1) (Seq (oneOrMore spaceC) (liti w2))) ([], s, [])"
    unfolding ends_Seq by simp
qed


lemma ends_Seq_assoc: "ends (Seq (Seq r1 r2) r3) st \<longleftrightarrow> ends (Seq r1 (Seq r2 r3)) st"
  by (auto simp: ends_def)

lemma word_space_progress:
  assumes "mid \<in> set (matches (Seq (liti w) (oneOrMore spaceC)) (b, cs, g))"
  shows "progress (b, cs, g) mid"
proof -
  from assms obtain m where m: "m \<in> set (matches (liti w) (b, cs, g))"
    and mid: "mid \<in> set (matches (oneOrMore spaceC) m)"
    by auto
  from m have m_eq: "m = (rev (take (length w) cs) @ b, drop (length w) cs, g)"
    by (auto simp: matches_liti_eq split: if_splits)
  from mid obtain k where "1 \<le> k" "k \<le> length (takeWhile isWhiteSpace (drop (length w) cs))"
    and "mid = (rev (take k (drop (length w) cs)) @ rev (take (length w) cs) @ b,
                drop k (drop (length w) cs), g)"
    unfolding m_eq spaceC_def matches_oneOrMore_set by blast
  moreover have "length (takeWhile isWhiteSpace (drop (length w) cs)) \<le> length (drop (length w) cs)"
    by (rule length_takeWhile_le)
  ultimately show ?thesis
    by (simp add: progress_def)
qed

lemma ends_optional_word:
  "ends (Seq (Opt (Seq (liti w1) (oneOrMore spaceC))) (liti w2)) ([], s, [])
     \<longleftrightarrow> equalsCI w2 s \<or> wordsCI w1 w2 s"
proof -
  let ?X = "Seq (liti w1) (oneOrMore spaceC)"
  let ?st = "([], s, [])"
  have "\<forall>mid \<in> set (matches ?X ?st). progress ?st mid"
    using word_space_progress[of _ w1 "[]" s "[]"] by blast
  then have "filter (progress ?st) (matches ?X ?st) = matches ?X ?st"
    by (rule filter_True)
  then have "ends (Seq (Opt ?X) (liti w2)) ?st \<longleftrightarrow>
      ends (liti w2) ?st \<or> ends (Seq ?X (liti w2)) ?st"
    unfolding ends_Seq by auto
  then show ?thesis
    by (simp only: ends_Seq_assoc ends_two_words ends_liti)
qed

lemma SKILLS_Skills: "equalsCI ''SKILLS'' s \<longleftrightarrow> equalsCI ''Skills'' s"
proof -
  have "map canonicalize (str ''SKILLS'') = map canonicalize (str ''Skills'')"
    by code_simp
  then show ?thesis by (simp only: equalsCI_def)
qed

lemma isLabel_labelLine: "isLabel k line \<longleftrightarrow> labelLine k line"
proof (cases k)
  case Header
  then show ?thesis by (simp add: isLabel_def labelLine_def headerLabels_def)
next
  case Summary
  then show ?thesis
    by (simp add: isLabel_def labelLine_def headerLabels_def test_anchored ends_Alt ends_liti)
next
  case Education
  then show ?thesis
    by (simp add: isLabel_def labelLine_def headerLabels_def test_anchored ends_liti)
next
  case Experience
  then show ?thesis
    by (simp add: isLabel_def labelLine_def headerLabels_def test_anchored ends_optional_word)
next
  case Skills
  then show ?thesis
    by (auto simp: isLabel_def labelLine_def headerLabels_def test_anchored ends_Alt ends_liti
        ends_two_words SKILLS_Skills)
next
  case Projects
  then show ?thesis
    by (simp add: isLabel_def labelLine_def headerLabels_def test_anchored ends_liti)
next
  case Certifications
  then show ?thesis
    by (simp add: isLabel_def labelLine_def headerLabels_def test_anchored ends_liti)
qed

text \<open>
  Claim C3. For every input text, with its lines trimmed: each of the six section labels
  is matched at most once, at the first line that is the label as a whole (ignoring
  case) and at no later one, and every label that some line is, is matched; the matches
  are in the order of their lines, not in the order of the label table; and the header region and the regions of the matched labels
  are pairwise disjoint ranges of lines, so that no line, and hence no character
  position, belongs to two sections. The sections that \<open>parseSections\<close> returns are the
  texts of exactly these ranges.
\<close>

theorem sections_first_match_disjoint:
  "distinct (map fst (headerLinesOf (normLines text)))
   \<and> sorted (map snd (headerLinesOf (normLines text)))
   \<and> (\<forall>(k, i) \<in> set (headerLinesOf (normLines text)).
         i < length (normLines text) \<and> labelLine k (normLines text ! i)
         \<and> (\<forall>j < i. \<not> labelLine k (normLines text ! j)))
   \<and> (\<forall>k j. j < length (normLines text) \<and> labelLine k (normLines text ! j)
         \<longrightarrow> k \<in> set (map fst (headerLinesOf (normLines text))))
   \<and> (\<forall>a b. a < b \<and> b < length (regionsOf (normLines text))
         \<longrightarrow> span (regionsOf (normLines text) ! a) \<inter> span (regionsOf (normLines text) ! b) = {})
   \<and> map_option ps_sections (parseSections text)
       = Some (map (\<lambda>(k, s, e). (k, regionText (normLines text) s e))
                 (regionsOf (normLines text)))"
proof -
  let ?lines = "normLines text"
  let ?hl = "headerLinesOf ?lines"
  have first: "\<forall>(k, i) \<in> set ?hl.
         i < length ?lines \<and> labelLine k (?lines ! i) \<and> (\<forall>j < i. \<not> labelLine k (?lines ! j))"
    using headerLinesOf_first[of ?lines] by (simp only: isLabel_labelLine)
  have complete: "k \<in> set (map fst ?hl)" if "j < length ?lines" "labelLine k (?lines ! j)" for k j
  proof (rule ccontr)
    assume missing: "k \<notin> set (map fst ?hl)"
    from that(2) have "k \<noteq> Header" by (auto simp: labelLine_def)
    then have "k \<in> set labelKeys" by (cases k) (simp_all add: labelKeys_eq)
    with missing headerLinesOf_complete[of ?lines] that(1)
    have "\<not> isLabel k (?lines ! j)" by blast
    with that(2) show False by (simp add: isLabel_labelLine)
  qed
  have disjoint: "\<forall>a b. a < b \<and> b < length (regionsOf ?lines)
         \<longrightarrow> span (regionsOf ?lines ! a) \<inter> span (regionsOf ?lines ! b) = {}"
    using regions_disjoint[of _ _ ?lines] by blast
  have sections: "map_option ps_sections (parseSections text)
       = Some (map (\<lambda>(k, s, e). (k, regionText ?lines s e)) (regionsOf ?lines))"
    by (simp add: parseSections_sections)
  from headerLinesOf_distinct[of ?lines] headerLinesOf_sorted[of ?lines] first complete
    disjoint sections
  show ?thesis by blast
qed

theorem sections_first_match_disjoint_witness:
  "headerLinesOf (normLines (str ''Jane Doe'' @ [10] @ str ''SKILLS'' @ [10] @ str ''Languages: C''
       @ [10] @ str ''summary'' @ [10] @ str ''Uses skills'' @ [10] @ str ''Skills''))
     = [(Skills, 1), (Summary, 3)]
   \<and> regionsOf (normLines (str ''Jane Doe'' @ [10] @ str ''SKILLS'' @ [10] @ str ''Languages: C''
       @ [10] @ str ''summary'' @ [10] @ str ''Uses skills'' @ [10] @ str ''Skills''))
     = [(Header, 0, 1), (Skills, 2, 3), (Summary, 4, 6)]
   \<and> labelLine Skills (str ''SKILLS'') \<and> \<not> labelLine Skills (str ''Jane Doe'')
   \<and> labelLine Summary (str ''summary'') \<and> Summary \<in> set (map fst [(Skills, 1), (Summary, 3)])
   \<and> span (Skills, 2, 3) \<inter> span (Summary, 4, 6) = {}
   \<and> map_option ps_sections (parseSections (str ''Jane Doe'' @ [10] @ str ''SKILLS'' @ [10]
       @ str ''Languages: C'' @ [10] @ str ''summary'' @ [10] @ str ''Uses skills'' @ [10]
       @ str ''Skills''))
     = Some [(Header, str ''Jane Doe''), (Skills, str ''Languages: C''),
             (Summary, str ''Uses skills'' @ [10] @ str ''Skills'')]"
proof -
  let ?t = "str ''Jane Doe'' @ [10] @ str ''SKILLS'' @ [10] @ str ''Languages: C''
       @ [10] @ str ''summary'' @ [10] @ str ''Uses skills'' @ [10] @ str ''Skills''"
  have lines: "normLines ?t = [str ''Jane Doe'', str ''SKILLS'', str ''Languages: C'',
      str ''summary'', str ''Uses skills'', str ''Skills'']"
    by code_simp
  have hl: "headerLinesOf (normLines ?t) = [(Skills, 1), (Summary, 3)]"
    by code_simp
  have regions: "regionsOf (normLines ?t) = [(Header, 0, 1), (Skills, 2, 3), (Summary, 4, 6)]"
    by code_simp
  have texts: "map (\<lambda>(k, s, e). (k, regionText (normLines ?t) s e))
        [(Header, 0, 1), (Skills, 2, 3), (Summary, 4, 6)]
      = [(Header, str ''Jane Doe''), (Skills, str ''Languages: C''),
         (Summary, str ''Uses skills'' @ [10] @ str ''Skills'')]"
    by code_simp
  note inst = sections_first_match_disjoint[of ?t]
  from inst have "\<forall>(k, i) \<in> set (headerLinesOf (normLines ?t)).
         i < length (normLines ?t) \<and> labelLine k (normLines ?t ! i)
         \<and> (\<forall>j < i. \<not> labelLine k (normLines ?t ! j))"
    by (elim conjE)
  then have "labelLine Skills (normLines ?t ! 1) \<and> (\<forall>j < 1. \<not> labelLine Skills (normLines ?t ! j))"
    unfolding hl by simp
  then have label: "labelLine Skills (str ''SKILLS'') \<and> \<not> labelLine Skills (str ''Jane Doe'')"
    unfolding lines by simp
  have summary: "labelLine Summary (str ''summary'')"
    by (simp add: labelLine_def equalsCI_def str_def canonicalize_def isLower_def)
  from inst have "\<forall>k j. j < length (normLines ?t) \<and> labelLine k (normLines ?t ! j)
         \<longrightarrow> k \<in> set (map fst (headerLinesOf (normLines ?t)))"
    by (elim conjE)
  then have "3 < length (normLines ?t) \<and> labelLine Summary (normLines ?t ! 3)
         \<longrightarrow> Summary \<in> set (map fst (headerLinesOf (normLines ?t)))"
    by blast
  with summary have matched: "Summary \<in> set (map fst [(Skills, 1), (Summary, 3)])"
    unfolding hl lines by simp
  from inst have "\<forall>a b. a < b \<and> b < length (regionsOf (normLines ?t))
         \<longrightarrow> span (regionsOf (normLines ?t) ! a) \<inter> span (regionsOf (normLines ?t) ! b) = {}"
    by (elim conjE)
  then have "(1::nat) < 2 \<and> 2 < length (regionsOf (normLines ?t))
         \<longrightarrow> span (regionsOf (normLines ?t) ! 1) \<inter> span (regionsOf (normLines ?t) ! 2) = {}"
    by blast
  then have disjoint: "span (Skills, 2, 3) \<inter> span (Summary, 4, 6) = {}"
    unfolding regions by simp
  from inst have "map_option ps_sections (parseSections ?t)
       = Some (map (\<lambda>(k, s, e). (k, regionText (normLines ?t) s e)) (regionsOf (normLines ?t)))"
    by (elim conjE)
  then have sections: "map_option ps_sections (parseSections ?t)
      = Some [(Header, str ''Jane Doe''), (Skills, str ''Languages: C''),
              (Summary, str ''Uses skills'' @ [10] @ str ''Skills'')]"
    unfolding regions texts .
  from hl regions label summary matched disjoint sections show ?thesis
    by (intro conjI) (elim conjE, assumption)+
qed

section \<open>The skills mapping\<close>

lemma skillsStep_skillLine:
  "skillsStep skills line =
     Some (case skillLine line of None \<Rightarrow> skills | Some (c, ts) \<Rightarrow> AList.update c ts skills)"
proof (cases "exec skillsLineRe line")
  case None
  then show ?thesis by (simp add: skillsStep_def skillLine_def)
next
  case (Some m)
  from exec_captures[OF skillsLineRe_captures(1) Some] exec_captures[OF skillsLineRe_captures(2) Some]
  obtain category raw where "matchGroup m 1 = Some category" and "matchGroup m 2 = Some raw"
    by blast
  with Some show ?thesis
    by (simp add: skillsStep_def skillLine_def orEmpty_def)
qed

lemma skillsLoop_other:
  "\<forall>l \<in> set lines. \<forall>ts. skillLine l \<noteq> Some (c, ts)
     \<Longrightarrow> \<exists>result. skillsLoop lines skills = Some result \<and> map_of result c = map_of skills c"
proof (induction lines arbitrary: skills)
  case Nil
  show ?case by simp
next
  case (Cons l lines)
  let ?next = "case skillLine l of None \<Rightarrow> skills | Some (c', ts) \<Rightarrow> AList.update c' ts skills"
  from Cons.prems have "map_of ?next c = map_of skills c"
    by (auto simp: update_conv' split: option.splits)
  moreover from Cons.prems Cons.IH[of ?next]
  obtain result where "skillsLoop lines ?next = Some result" and "map_of result c = map_of ?next c"
    by auto
  ultimately show ?case
    by (simp add: skillsStep_skillLine)
qed

lemma skillsLoop_append:
  "skillsLoop (pre @ rest) skills =
     (case skillsLoop pre skills of None \<Rightarrow> None | Some mid \<Rightarrow> skillsLoop rest mid)"
  by (induction pre arbitrary: skills) (auto split: option.splits)

text \<open>
  Claim C10. When a line of the skills section has the form \<open>category: rest\<close> and no later
  line has the same (trimmed) category, the mapping holds for that category exactly the
  deduplicated token list of that line, whatever lines with the same category come before
  it: their tokens are replaced, not merged.
\<close>

theorem skills_last_line_wins:
  assumes "contentLines section = pre @ line # post"
    and "skillLine line = Some (category, tokens)"
    and "\<forall>l \<in> set post. \<forall>ts. skillLine l \<noteq> Some (category, ts)"
  shows "\<exists>skills. extractSkills section = Some skills \<and> map_of skills category = Some tokens"
proof -
  obtain mid where mid: "skillsLoop pre [] = Some mid"
    using skillsLoop_total by blast
  let ?at = "AList.update category tokens mid"
  from assms(2) have step: "skillsStep mid line = Some ?at"
    by (simp add: skillsStep_skillLine)
  from skillsLoop_other[OF assms(3), of ?at]
  obtain result where "skillsLoop post ?at = Some result"
    and "map_of result category = map_of ?at category"
    by blast
  with mid step assms(1) show ?thesis
    by (simp add: extractSkills_def skillsLoop_append update_conv')
qed

theorem skills_last_line_wins_witness:
  "map_option (\<lambda>skills. map_of skills (str ''Languages''))
     (extractSkills (str ''Languages: Python, Go'' @ [10] @ str ''Languages: Rust, C/Rust''
        @ [10] @ str ''Cloud:  AWS   GCP''))
   = Some (Some [str ''Rust'', str ''C''])"
proof -
  let ?s = "str ''Languages: Python, Go'' @ [10] @ str ''Languages: Rust, C/Rust''
        @ [10] @ str ''Cloud:  AWS   GCP''"
  have lines: "contentLines ?s
      = [str ''Languages: Python, Go''] @ str ''Languages: Rust, C/Rust'' # [str ''Cloud:  AWS   GCP'']"
    by code_simp
  have line: "skillLine (str ''Languages: Rust, C/Rust'')
      = Some (str ''Languages'', [str ''Rust'', str ''C''])"
    by code_simp
  have cloud: "skillLine (str ''Cloud:  AWS   GCP'') = Some (str ''Cloud'', [str ''AWS'', str ''GCP''])"
    by code_simp
  have differ: "str ''Cloud'' \<noteq> str ''Languages''"
    by (simp add: str_def)
  have later: "\<forall>l \<in> set [str ''Cloud:  AWS   GCP'']. \<forall>ts. skillLine l \<noteq> Some (str ''Languages'', ts)"
    using cloud differ by simp
  from skills_last_line_wins[OF lines line later]
  show ?thesis by auto
qed

end
